theory Spec2Isabelle
  imports Main
begin

section \<open>Python strings\<close>

text \<open>
  A Python \<open>str\<close> is a sequence of Unicode code points and \<open>len\<close> counts code points,
  so a document is a list of code points. \<open>str\<close> turns an ASCII literal into one.
\<close>

type_synonym codepoint = nat
type_synonym pystr = "codepoint list"

definition str :: "string \<Rightarrow> pystr" where
  "str s = map of_char s"

definition LF :: codepoint where "LF = 10"
definition CR :: codepoint where "CR = 13"
definition BACKSLASH :: codepoint where "BACKSLASH = 92"

text \<open>
  The line boundaries of \<open>str.splitlines\<close>: \<open>\n\<close>, \<open>\v\<close>, \<open>\f\<close>, \<open>\r\<close>, \<open>\x1c\<close>, \<open>\x1d\<close>,
  \<open>\x1e\<close>, \<open>\x85\<close>, U+2028, U+2029; the pair \<open>\r\n\<close> is one boundary.
\<close>

definition is_linebreak :: "codepoint \<Rightarrow> bool" where
  "is_linebreak c \<longleftrightarrow> c \<in> {10, 11, 12, 13, 28, 29, 30, 133, 8232, 8233}"

text \<open>
  The characters \<open>str.strip()\<close> removes (those for which \<open>str.isspace\<close> holds).
\<close>

definition is_space :: "codepoint \<Rightarrow> bool" where
  "is_space c \<longleftrightarrow>
     (9 \<le> c \<and> c \<le> 13) \<or> (28 \<le> c \<and> c \<le> 32) \<or> c = 133 \<or> c = 160 \<or> c = 5760 \<or>
     (8192 \<le> c \<and> c \<le> 8202) \<or> c = 8232 \<or> c = 8233 \<or> c = 8239 \<or> c = 8287 \<or> c = 12288"

definition strip :: "pystr \<Rightarrow> pystr" where
  "strip s = rev (dropWhile is_space (rev (dropWhile is_space s)))"

text \<open>
  \<open>splitlines_acc keepends cur s\<close>: \<open>cur\<close> is the line read so far. A line is closed at
  every boundary; what follows the last boundary is a line only when it is not empty.
\<close>

fun splitlines_acc :: "bool \<Rightarrow> pystr \<Rightarrow> pystr \<Rightarrow> pystr list" where
  "splitlines_acc keep cur [] = (if cur = [] then [] else [cur])"
| "splitlines_acc keep cur [c] =
     (if is_linebreak c then [cur @ (if keep then [c] else [])] else [cur @ [c]])"
| "splitlines_acc keep cur (c # d # cs) =
     (if c = CR \<and> d = LF then (cur @ (if keep then [c, d] else [])) # splitlines_acc keep [] cs
      else if is_linebreak c then (cur @ (if keep then [c] else [])) # splitlines_acc keep [] (d # cs)
      else splitlines_acc keep (cur @ [c]) (d # cs))"

definition splitlines :: "pystr \<Rightarrow> pystr list" where
  "splitlines s = splitlines_acc False [] s"

definition splitlines_keepends :: "pystr \<Rightarrow> pystr list" where
  "splitlines_keepends s = splitlines_acc True [] s"

section \<open>Offsets and Tk indices in the find dialog\<close>

text \<open>
  A Tk index \<open>"line.col"\<close> is the pair \<open>(line, col)\<close>; lines count from 1, columns from 0.
  Offsets are the non-negative integers the callers pass (\<open>match.start()\<close>, \<open>match.end()\<close>,
  sums of lengths).
\<close>

type_synonym tkindex = "nat \<times> nat"

text \<open>\<open>FindReplaceDialog._index_to_int\<close>.\<close>

definition index_to_int :: "tkindex \<Rightarrow> pystr \<Rightarrow> nat" where
  "index_to_int index text =
     (let line = fst index; col = snd index;
          lines = splitlines_keepends text;
          pos = sum_list (map length (take (min (line - 1) (length lines)) lines))
      in pos + col)"

text \<open>The \<open>for ch in text\<close> loop shared by both \<open>_int_to_index\<close> methods.\<close>

fun index_loop :: "pystr \<Rightarrow> nat \<Rightarrow> nat \<Rightarrow> nat \<Rightarrow> tkindex" where
  "index_loop [] pos line col = (line, col)"
| "index_loop (ch # rest) pos line col =
     (if pos = 0 then (line, col)
      else if ch = LF then index_loop rest (pos - 1) (line + 1) 0
      else index_loop rest (pos - 1) line (col + 1))"

text \<open>\<open>FindReplaceDialog._int_to_index\<close>; \<open>text\<close> is the widget's content.\<close>

definition int_to_index :: "pystr \<Rightarrow> nat \<Rightarrow> tkindex" where
  "int_to_index text pos =
     (if pos \<le> 0 then (1, 0)
      else if pos \<ge> length text then
        (let last_line = length (splitlines text);
             last_col = (if last_line \<noteq> 0 then length (last (splitlines text)) else 0)
         in (max 1 last_line, last_col))
      else index_loop text pos 1 0)"

section \<open>The Tk text widget\<close>

text \<open>
  The toolkit is not part of the repository. The widget is modelled by what the code reads
  and writes: the text without Tk's final newline (\<open>get("1.0", "end-1c")\<close>), the insert
  mark and the range of the \<open>sel\<close> tag as offsets into that text, and the modified flag.
  Tk separates lines at \<open>\n\<close> only.
\<close>

record text_widget =
  content :: pystr
  insert_mark :: nat
  sel :: "(nat \<times> nat) option"
  modified :: bool

text \<open>\<open>text.index(mark)\<close>: the \<open>line.col\<close> index Tk reports for an offset.\<close>

fun tk_index_from :: "pystr \<Rightarrow> nat \<Rightarrow> nat \<Rightarrow> nat \<Rightarrow> tkindex" where
  "tk_index_from [] off line col = (line, col)"
| "tk_index_from (c # cs) off line col =
     (if off = 0 then (line, col)
      else if c = LF then tk_index_from cs (off - 1) (line + 1) 0
      else tk_index_from cs (off - 1) line (col + 1))"

definition tk_index :: "pystr \<Rightarrow> nat \<Rightarrow> tkindex" where
  "tk_index text off = tk_index_from text off 1 0"

text \<open>
  How Tk resolves an index \<open>line.col\<close>: a column past the end of its line is the end of
  that line, a line past the last one is the end of the text.
\<close>

primrec tk_seek :: "nat \<Rightarrow> pystr \<Rightarrow> nat \<Rightarrow> nat" where
  "tk_seek 0 text col = min col (length (takeWhile (\<lambda>c. c \<noteq> LF) text))"
| "tk_seek (Suc n) text col =
     (case dropWhile (\<lambda>c. c \<noteq> LF) text of
        [] \<Rightarrow> length text
      | nl # rest \<Rightarrow> length (takeWhile (\<lambda>c. c \<noteq> LF) text) + 1 + tk_seek n rest col)"

definition tk_offset :: "pystr \<Rightarrow> tkindex \<Rightarrow> nat" where
  "tk_offset text index = tk_seek (fst index - 1) text (snd index)"

text \<open>Where a position goes when the characters \<open>[a, b)\<close> are deleted.\<close>

definition after_delete :: "nat \<Rightarrow> nat \<Rightarrow> nat \<Rightarrow> nat" where
  "after_delete a b p = (if p \<le> a then p else if p < b then a else p - (b - a))"

text \<open>\<open>text.delete(a, b)\<close> for offsets \<open>a\<close>, \<open>b\<close>; nothing happens unless \<open>a < b\<close>.\<close>

definition tk_delete :: "nat \<Rightarrow> nat \<Rightarrow> text_widget \<Rightarrow> text_widget" where
  "tk_delete a b w =
     (let b' = min b (length (content w)) in
      if a < b' then
        w\<lparr>content := take a (content w) @ drop b' (content w),
          insert_mark := after_delete a b' (insert_mark w),
          sel := (case sel w of None \<Rightarrow> None
                  | Some (s, e) \<Rightarrow>
                      if after_delete a b' s < after_delete a b' e
                      then Some (after_delete a b' s, after_delete a b' e) else None),
          modified := True\<rparr>
      else w)"

text \<open>
  \<open>text.insert(i, s)\<close> for an offset \<open>i\<close>. The insert mark has right gravity; the new
  characters carry the \<open>sel\<close> tag only when the characters on both sides do.
\<close>

definition tk_insert :: "nat \<Rightarrow> pystr \<Rightarrow> text_widget \<Rightarrow> text_widget" where
  "tk_insert i s w =
     (let i' = min i (length (content w)) in
      if s = [] then w
      else
        w\<lparr>content := take i' (content w) @ s @ drop i' (content w),
          insert_mark := (if i' \<le> insert_mark w then insert_mark w + length s else insert_mark w),
          sel := (case sel w of None \<Rightarrow> None
                  | Some (a, b) \<Rightarrow>
                      if i' \<le> a then Some (a + length s, b + length s)
                      else if i' < b then Some (a, b + length s)
                      else Some (a, b)),
          modified := True\<rparr>)"

text \<open>\<open>tag_remove("sel", "1.0", "end")\<close> followed by \<open>tag_add("sel", start, stop)\<close>.\<close>

definition tk_select :: "tkindex \<Rightarrow> tkindex \<Rightarrow> text_widget \<Rightarrow> text_widget" where
  "tk_select start stop w =
     (let a = tk_offset (content w) start; b = tk_offset (content w) stop
      in w\<lparr>sel := (if a < b then Some (a, b) else None)\<rparr>)"

text \<open>\<open>mark_set("insert", index)\<close>.\<close>

definition tk_mark_set_insert :: "tkindex \<Rightarrow> text_widget \<Rightarrow> text_widget" where
  "tk_mark_set_insert index w = w\<lparr>insert_mark := tk_offset (content w) index\<rparr>"

section \<open>The \<open>re\<close> module\<close>

datatype exn = ReError | OSError

text \<open>
  Python's regular-expression engine is a library, so it is a parameter of the model:
  \<^item> \<open>rx_valid p\<close>: \<open>re.compile(p, flags)\<close> accepts \<open>p\<close> (otherwise it raises \<open>re.error\<close>);
  \<^item> \<open>rx_search p ic text pos\<close>: \<open>Pattern.search(text, pos)\<close> of the compiled regex
    (\<open>ic\<close> is \<open>re.IGNORECASE\<close>), the span of the match found;
  \<^item> \<open>rx_sub p ic repl text\<close>: \<open>Pattern.sub(repl, text)\<close> of the compiled regex, which
    raises \<open>re.error\<close> on a bad replacement template;
  \<^item> \<open>ci_eq c d\<close>: the characters \<open>c\<close> and \<open>d\<close> match each other under \<open>re.IGNORECASE\<close>;
  \<^item> \<open>parse_template repl\<close>: the replacement template \<open>repl\<close>, which holds a backslash,
    parsed for a pattern without groups: \<open>re.error\<close>, or the function from the matched
    text to its replacement.
\<close>

record re_module =
  rx_valid :: "pystr \<Rightarrow> bool"
  rx_search :: "pystr \<Rightarrow> bool \<Rightarrow> pystr \<Rightarrow> nat \<Rightarrow> (nat \<times> nat) option"
  rx_sub :: "pystr \<Rightarrow> bool \<Rightarrow> pystr \<Rightarrow> pystr \<Rightarrow> exn + pystr"
  ci_eq :: "codepoint \<Rightarrow> codepoint \<Rightarrow> bool"
  parse_template :: "pystr \<Rightarrow> exn + (pystr \<Rightarrow> pystr)"

text \<open>
  A compiled pattern. \<open>re.compile(re.escape(needle), flags)\<close> matches \<open>needle\<close> itself,
  character by character, and is modelled in full.
\<close>

datatype pattern = Literal pystr bool | Regex pystr bool

definition char_eq :: "re_module \<Rightarrow> bool \<Rightarrow> codepoint \<Rightarrow> codepoint \<Rightarrow> bool" where
  "char_eq re ic c d = (if ic then ci_eq re c d else c = d)"

text \<open>The needle matches at the head of the text.\<close>

fun matches_here :: "(codepoint \<Rightarrow> codepoint \<Rightarrow> bool) \<Rightarrow> pystr \<Rightarrow> pystr \<Rightarrow> bool" where
  "matches_here eq [] text = True"
| "matches_here eq (n # ns) [] = False"
| "matches_here eq (n # ns) (c # cs) = (eq n c \<and> matches_here eq ns cs)"

text \<open>The leftmost match in \<open>text\<close>, whose first character has offset \<open>off\<close>.\<close>

fun lit_find :: "(codepoint \<Rightarrow> codepoint \<Rightarrow> bool) \<Rightarrow> pystr \<Rightarrow> pystr \<Rightarrow> nat \<Rightarrow> nat option" where
  "lit_find eq needle [] off = (if needle = [] then Some off else None)"
| "lit_find eq needle (c # cs) off =
     (if matches_here eq needle (c # cs) then Some off else lit_find eq needle cs (Suc off))"

definition lit_search ::
  "(codepoint \<Rightarrow> codepoint \<Rightarrow> bool) \<Rightarrow> pystr \<Rightarrow> pystr \<Rightarrow> nat \<Rightarrow> (nat \<times> nat) option" where
  "lit_search eq needle text pos =
     (case lit_find eq needle (drop pos text) (min pos (length text)) of
        None \<Rightarrow> None
      | Some i \<Rightarrow> Some (i, i + length needle))"

text \<open>
  Substitution of a literal needle: the matches are found from left to right and do not
  overlap. An empty needle never reaches this function.
\<close>

fun lit_sub ::
  "(codepoint \<Rightarrow> codepoint \<Rightarrow> bool) \<Rightarrow> pystr \<Rightarrow> (pystr \<Rightarrow> pystr) \<Rightarrow> pystr \<Rightarrow> pystr" where
  "lit_sub eq needle f [] = []"
| "lit_sub eq needle f (c # cs) =
     (if needle \<noteq> [] \<and> matches_here eq needle (c # cs)
      then f (take (length needle) (c # cs)) @ lit_sub eq needle f (drop (length needle - 1) cs)
      else c # lit_sub eq needle f cs)"

text \<open>A template without a backslash is taken as it is.\<close>

definition template :: "re_module \<Rightarrow> pystr \<Rightarrow> exn + (pystr \<Rightarrow> pystr)" where
  "template re repl = (if BACKSLASH \<in> set repl then parse_template re repl else Inr (\<lambda>m. repl))"

definition pattern_search :: "re_module \<Rightarrow> pattern \<Rightarrow> pystr \<Rightarrow> nat \<Rightarrow> (nat \<times> nat) option" where
  "pattern_search re p text pos =
     (case p of
        Literal needle ic \<Rightarrow> lit_search (char_eq re ic) needle text pos
      | Regex r ic \<Rightarrow> rx_search re r ic text pos)"

definition pattern_sub :: "re_module \<Rightarrow> pattern \<Rightarrow> pystr \<Rightarrow> pystr \<Rightarrow> exn + pystr" where
  "pattern_sub re p repl text =
     (case p of
        Literal needle ic \<Rightarrow>
          (case template re repl of
             Inl e \<Rightarrow> Inl e
           | Inr f \<Rightarrow> Inr (lit_sub (char_eq re ic) needle f text))
      | Regex r ic \<Rightarrow> rx_sub re r ic repl text)"

section \<open>\<open>FindReplaceDialog\<close>\<close>

text \<open>
  The dialog's variables. An operation of the dialog returns the widget it leaves behind
  together with its outcome: \<open>Inl e\<close> when the exception \<open>e\<close> leaves the method, \<open>Inr v\<close>
  when it returns \<open>v\<close>.
\<close>

record dialog =
  find_var :: pystr
  replace_var :: pystr
  regex_var :: bool
  case_var :: bool

definition compile_needle :: "re_module \<Rightarrow> dialog \<Rightarrow> exn + pattern" where
  "compile_needle re d =
     (let needle = find_var d; ic = \<not> case_var d in
      if regex_var d then (if rx_valid re needle then Inr (Regex needle ic) else Inl ReError)
      else Inr (Literal needle ic))"

text \<open>\<open>_search\<close> (always called with \<open>start="insert"\<close>).\<close>

definition search :: "re_module \<Rightarrow> dialog \<Rightarrow> text_widget \<Rightarrow> exn + (tkindex \<times> tkindex) option" where
  "search re d w =
     (let needle = find_var d in
      if needle = [] then Inr None
      else
        case compile_needle re d of
          Inl e \<Rightarrow> Inl e
        | Inr pattern \<Rightarrow>
            let text = content w;
                start_idx = tk_index text (insert_mark w);
                start_index = index_to_int start_idx text;
                m = (case pattern_search re pattern text (start_index + 1) of
                       None \<Rightarrow> pattern_search re pattern text 0
                     | Some m \<Rightarrow> Some m)
            in case m of
                 None \<Rightarrow> Inr None
               | Some (ms, me) \<Rightarrow> Inr (Some (int_to_index text ms, int_to_index text me)))"

definition find_next :: "re_module \<Rightarrow> dialog \<Rightarrow> text_widget \<Rightarrow> (exn + unit) \<times> text_widget" where
  "find_next re d w =
     (case search re d w of
        Inl e \<Rightarrow> (Inl e, w)
      | Inr None \<Rightarrow> (Inr (), w)
      | Inr (Some (start, stop)) \<Rightarrow> (Inr (), tk_mark_set_insert stop (tk_select start stop w)))"

definition replace_one :: "re_module \<Rightarrow> dialog \<Rightarrow> text_widget \<Rightarrow> (exn + unit) \<times> text_widget" where
  "replace_one re d w =
     (case sel w of
        Some (sel_first, sel_last) \<Rightarrow>
          (let w1 = tk_delete sel_first sel_last w
           in (Inr (), tk_insert (insert_mark w1) (replace_var d) w1))
      | None \<Rightarrow> find_next re d w)"

definition replace_all :: "re_module \<Rightarrow> dialog \<Rightarrow> text_widget \<Rightarrow> (exn + unit) \<times> text_widget" where
  "replace_all re d w =
     (let needle = find_var d; repl = replace_var d in
      if needle = [] then (Inr (), w)
      else
        let text = content w in
        case compile_needle re d of
          Inl e \<Rightarrow> (Inl e, w)
        | Inr pattern \<Rightarrow>
            (case pattern_sub re pattern repl text of
               Inl e \<Rightarrow> (Inl e, w)
             | Inr new_text \<Rightarrow>
                 if new_text \<noteq> text
                 then (Inr (), tk_insert 0 new_text (tk_delete 0 (length (content w)) w))
                 else (Inr (), w)))"

text \<open>ASCII case folding.\<close>

definition ascii_lower :: "codepoint \<Rightarrow> codepoint" where
  "ascii_lower c = (if 65 \<le> c \<and> c \<le> 90 then c + 32 else c)"

text \<open>
  An engine whose comparison under \<open>re.IGNORECASE\<close> is ASCII case folding on ASCII
  characters, as CPython's is.
\<close>

definition ascii_ci :: "re_module \<Rightarrow> bool" where
  "ascii_ci re \<longleftrightarrow>
     (\<forall>c d. c < 128 \<longrightarrow> d < 128 \<longrightarrow> ci_eq re c d = (ascii_lower c = ascii_lower d))"

text \<open>
  An instance of the engine for closed examples: the fragment of patterns and templates
  without special characters, on which a pattern matches as the literal it is. Every
  other pattern and every template with a backslash is rejected; CPython's \<open>re\<close> rejects
  some of them too, among them the pattern \<open>(\<close> (an unterminated group).
\<close>

definition is_special :: "codepoint \<Rightarrow> bool" where
  "is_special c \<longleftrightarrow> c \<in> set (str ''.^$*+?{}[]|()'') \<or> c = BACKSLASH"

definition plain_re :: re_module where
  "plain_re =
     \<lparr>rx_valid = (\<lambda>p. \<not> list_ex is_special p),
      rx_search = (\<lambda>p ic text pos.
         lit_search (\<lambda>c d. if ic then ascii_lower c = ascii_lower d else c = d) p text pos),
      rx_sub = (\<lambda>p ic repl text.
         if BACKSLASH \<in> set repl then Inl ReError
         else Inr (lit_sub (\<lambda>c d. if ic then ascii_lower c = ascii_lower d else c = d) p (\<lambda>m. repl) text)),
      ci_eq = (\<lambda>c d. ascii_lower c = ascii_lower d),
      parse_template = (\<lambda>repl. Inl ReError)\<rparr>"

section \<open>\<open>EditorApp\<close>: highlighting\<close>

text \<open>
  A Pygments token type is its path below \<open>Token\<close>: \<open>Token.Name.Builtin\<close> is
  \<open>[''Name'', ''Builtin'']\<close>, and \<open>t in T\<close> holds when \<open>T\<close> is a prefix of \<open>t\<close>.
\<close>

type_synonym toktype = "string list"

definition tok_in :: "toktype \<Rightarrow> toktype \<Rightarrow> bool" where
  "tok_in t T \<longleftrightarrow> take (length T) t = T"

definition tag_for :: "toktype \<Rightarrow> string" where
  "tag_for toktype =
     (if tok_in toktype [''Keyword''] then ''tok-kw''
      else if tok_in toktype [''Name'', ''Builtin''] then ''tok-builtin''
      else if tok_in toktype [''Literal'', ''String''] then ''tok-str''
      else if tok_in toktype [''Literal'', ''Number''] then ''tok-num''
      else if tok_in toktype [''Comment''] then ''tok-com''
      else if tok_in toktype [''Operator''] then ''tok-op''
      else if tok_in toktype [''Punctuation''] then ''tok-punc''
      else if tok_in toktype [''Name'', ''Function''] then ''tok-func''
      else if tok_in toktype [''Name'', ''Class''] then ''tok-cls''
      else ''tok-text'')"

text \<open>\<open>EditorApp._int_to_index\<close>.\<close>

definition app_int_to_index :: "nat \<Rightarrow> pystr \<Rightarrow> tkindex" where
  "app_int_to_index pos text =
     (if pos \<le> 0 then (1, 0)
      else if pos \<ge> length text then
        (let lines = splitlines text
         in if lines = [] then (1, 0) else (length lines, length (last lines)))
      else index_loop text pos 1 0)"

text \<open>
  A highlight span as the pass emits it: the arguments of one call
  \<open>tag_add(tag, start_index, end_index)\<close>.
\<close>

record span =
  tag :: string
  start_index :: tkindex
  end_index :: tkindex

text \<open>The loop over the tokens in \<open>_highlight_now\<close>, from the offset \<open>pos\<close>.\<close>

fun highlight_loop :: "pystr \<Rightarrow> nat \<Rightarrow> (toktype \<times> pystr) list \<Rightarrow> span list" where
  "highlight_loop txt pos [] = []"
| "highlight_loop txt pos ((toktype, val) # rest) =
     (let len = length val in
      if len = 0 then highlight_loop txt pos rest
      else
        \<lparr>tag = tag_for toktype,
         start_index = app_int_to_index pos txt,
         end_index = app_int_to_index (pos + len) txt\<rparr>
        # highlight_loop txt (pos + len) rest)"

text \<open>
  The characters that \<open>tag_add(tag, start_index, end_index)\<close> tags in the widget, by
  their offsets: those from the first index up to the second, none when the second does
  not come after the first.
\<close>

definition tagged :: "pystr \<Rightarrow> span \<Rightarrow> nat set" where
  "tagged txt s = {tk_offset txt (start_index s) ..< tk_offset txt (end_index s)}"

text \<open>
  For the proofs: the values of \<open>pos\<close> and \<open>pos + length\<close> at the calls of \<open>tag_add\<close>.
\<close>

fun loop_offsets :: "nat \<Rightarrow> (toktype \<times> pystr) list \<Rightarrow> (nat \<times> nat) list" where
  "loop_offsets pos [] = []"
| "loop_offsets pos ((toktype, val) # rest) =
     (if length val = 0 then loop_offsets pos rest
      else (pos, pos + length val) # loop_offsets (pos + length val) rest)"

text \<open>
  Pygments is a parameter: \<open>guess_lexer_for_filename\<close> (\<open>None\<close> when it raises),
  \<open>TextLexer()\<close> and \<open>lex\<close>. The module-level name \<open>lex\<close> is \<open>None\<close> when the import failed.
\<close>

record 'l pygments =
  guess_lexer_for_filename :: "pystr \<Rightarrow> pystr \<Rightarrow> 'l option"
  TextLexer :: 'l
  lex :: "pystr \<Rightarrow> 'l \<Rightarrow> (toktype \<times> pystr) list"

section \<open>\<open>EditorApp\<close>: files, dirty flag and autosave\<close>

text \<open>
  A file on disk: one at a path the user chose in a file dialog, or the snapshot
  \<open>untitled_<t>.txt\<close> in the autosave directory below the temporary directory.
\<close>

datatype path = UserPath pystr | SnapshotPath nat

datatype status_msg = Opened path | Saved path | AutoSaved

text \<open>What the application does to the outside, in order.\<close>

datatype effect =
    ShowError string
  | Status status_msg
  | Write path pystr

text \<open>
  The fields of \<open>EditorApp\<close> that the modelled methods use (\<open>textw\<close> is \<open>self.text\<close>). A
  timer field holds the
  delay in milliseconds of the pending \<open>root.after\<close> call. \<open>syntax_tags\<close> are the spans
  tagged in the widget, \<open>effects\<close> the log of effects so far.
\<close>

record editor =
  textw :: text_widget
  file_path :: "pystr option"
  dirty :: bool
  autosave_enabled :: bool
  autosave_secs :: nat
  highlight_after_id :: "nat option"
  autosave_after_id :: "nat option"
  syntax_tags :: "span list"
  effects :: "effect list"

text \<open>
  What the environment answers during one operation: the button chosen in the
  "unsaved changes" box (\<open>None\<close> is Cancel), the paths chosen in the file dialogs (empty
  when dismissed), whether a path names a file, the result of reading a file, whether
  writing a file and creating the autosave directory succeed, and the clock.
\<close>

record env =
  ask_save :: "bool option"
  open_dialog :: pystr
  save_dialog :: pystr
  is_file :: "pystr \<Rightarrow> bool"
  read_file :: "path \<Rightarrow> exn + pystr"
  write_ok :: "path \<Rightarrow> bool"
  mkdir_ok :: bool
  now :: nat

text \<open>\<open>status\<close> and \<open>messagebox.showerror\<close>.\<close>

definition status :: "status_msg \<Rightarrow> editor \<Rightarrow> editor" where
  "status m st = st\<lparr>effects := effects st @ [Status m]\<rparr>"

definition showerror :: "string \<Rightarrow> editor \<Rightarrow> editor" where
  "showerror m st = st\<lparr>effects := effects st @ [ShowError m]\<rparr>"

text \<open>
  \<open>_on_text_modified\<close>, the handler bound to the widget's \<open>Modified\<close> event. The calls
  that only redraw (the window title, the caret label) are left out here and below.
\<close>

definition on_text_modified :: "editor \<Rightarrow> editor" where
  "on_text_modified st =
     (let st1 = st\<lparr>textw := (textw st)\<lparr>modified := False\<rparr>\<rparr>
      in if \<not> dirty st1 then st1\<lparr>dirty := True\<rparr> else st1)"

definition schedule_highlight :: "editor \<Rightarrow> editor" where
  "schedule_highlight st = st\<lparr>highlight_after_id := Some 250\<rparr>"

text \<open>\<open>_get_lexer\<close>; \<open>None\<close> when Pygments is missing.\<close>

definition get_lexer :: "'l pygments option \<Rightarrow> editor \<Rightarrow> 'l option" where
  "get_lexer pyg st =
     (case pyg of
        None \<Rightarrow> None
      | Some py \<Rightarrow>
          let txt = content (textw st);
              filename = (case file_path st of
                            Some p \<Rightarrow> p
                          | None \<Rightarrow> str ''untitled.txt'')
          in (case guess_lexer_for_filename py filename txt of
                Some lexer \<Rightarrow> Some lexer
              | None \<Rightarrow> Some (TextLexer py)))"

text \<open>\<open>_highlight_now\<close>.\<close>

definition highlight_now :: "'l pygments option \<Rightarrow> editor \<Rightarrow> editor" where
  "highlight_now pyg st =
     (let st0 = st\<lparr>highlight_after_id := None\<rparr> in
      case pyg of
        None \<Rightarrow> st0
      | Some py \<Rightarrow>
          let st1 = st0\<lparr>syntax_tags := []\<rparr>;
              txt = content (textw st1)
          in if strip txt = [] then st1
             else
               (case get_lexer pyg st1 of
                  None \<Rightarrow> st1
                | Some lexer \<Rightarrow> st1\<lparr>syntax_tags := highlight_loop txt 0 (lex py txt lexer)\<rparr>))"

text \<open>
  \<open>save_file\<close> and \<open>save_file_as\<close> call each other; \<open>save_file_as\<close> binds a path first,
  so the recursion ends.
\<close>

function save_file :: "env \<Rightarrow> editor \<Rightarrow> bool \<times> editor"
  and save_file_as :: "env \<Rightarrow> editor \<Rightarrow> bool \<times> editor" where
  "save_file e st =
     (case file_path st of
        None \<Rightarrow> save_file_as e st
      | Some p \<Rightarrow>
          if write_ok e (UserPath p)
          then (True, status (Saved (UserPath p))
                  (st\<lparr>effects := effects st @ [Write (UserPath p) (content (textw st))],
                      dirty := False\<rparr>))
          else (False, showerror ''Failed to save file'' st))"
| "save_file_as e st =
     (let p = save_dialog e in
      if p = [] then (False, st)
      else save_file e (st\<lparr>file_path := Some p\<rparr>))"
  by pat_completeness auto
termination
  by (relation "measure (\<lambda>x. case x of
        Inl (e, st) \<Rightarrow> (if file_path st = None then 2 else 0)
      | Inr (e, st) \<Rightarrow> 1)") auto

text \<open>\<open>_maybe_save_changes\<close>.\<close>

definition maybe_save_changes :: "env \<Rightarrow> editor \<Rightarrow> bool \<times> editor" where
  "maybe_save_changes e st =
     (if \<not> dirty st then (True, st)
      else
        case ask_save e of
          None \<Rightarrow> (False, st)
        | Some resp \<Rightarrow> if resp then save_file e st else (True, st))"

text \<open>\<open>open_file\<close>.\<close>

definition open_file :: "env \<Rightarrow> editor \<Rightarrow> editor" where
  "open_file e st =
     (case maybe_save_changes e st of
        (False, st1) \<Rightarrow> st1
      | (True, st1) \<Rightarrow>
          let p = open_dialog e in
          if p = [] then st1
          else
            (case read_file e (UserPath p) of
               Inl err \<Rightarrow> showerror ''Failed to open file'' st1
             | Inr data \<Rightarrow>
                 status (Opened (UserPath p))
                   (schedule_highlight
                     (st1\<lparr>textw := tk_insert 0 data
                                      (tk_delete 0 (length (content (textw st1))) (textw st1)),
                          file_path := Some p,
                          dirty := False\<rparr>))))"

text \<open>\<open>schedule_autosave\<close> and \<open>_autosave_tick\<close>.\<close>

definition schedule_autosave :: "editor \<Rightarrow> editor" where
  "schedule_autosave st = st\<lparr>autosave_after_id := Some (autosave_secs st * 1000)\<rparr>"

definition autosave_tick :: "env \<Rightarrow> editor \<Rightarrow> editor" where
  "autosave_tick e st =
     (let st0 = st\<lparr>autosave_after_id := None\<rparr> in
      if autosave_enabled st0 then
        let st1 =
          (case file_path st0 of
             Some p \<Rightarrow>
               status AutoSaved (if dirty st0 then snd (save_file e st0) else st0)
           | None \<Rightarrow>
               let tmp_file = SnapshotPath (now e) in
               if mkdir_ok e \<and> write_ok e tmp_file
               then status AutoSaved
                      (st0\<lparr>effects := effects st0 @ [Write tmp_file (content (textw st0))]\<rparr>)
               else st0)
        in schedule_autosave st1
      else st0)"

text \<open>
  The state \<open>EditorApp.__init__\<close> leaves: an empty untitled document, not dirty;
  \<open>apply_theme\<close> has scheduled a highlight pass, and autosave is scheduled when the
  settings enable it.
\<close>

definition new_editor :: "bool \<Rightarrow> nat \<Rightarrow> editor" where
  "new_editor enabled secs =
     \<lparr>textw = \<lparr>content = [], insert_mark = 0, sel = None, modified = False\<rparr>,
      file_path = None, dirty = False, autosave_enabled = enabled, autosave_secs = secs,
      highlight_after_id = Some 250,
      autosave_after_id = (if enabled then Some (secs * 1000) else None),
      syntax_tags = [], effects = []\<rparr>"

text \<open>
  \<open>main\<close>, up to the call of \<open>root.mainloop()\<close>: with a path on the command line that
  names a file, the file is read and inserted into the widget and the path is bound; any
  exception is swallowed. \<open>argv\<close> is \<open>sys.argv\<close>.
\<close>

definition main :: "env \<Rightarrow> bool \<Rightarrow> nat \<Rightarrow> pystr list \<Rightarrow> editor" where
  "main e enabled secs argv =
     (let app = new_editor enabled secs in
      if length argv > 1 then
        let p = argv ! 1 in
        if is_file e p then
          (case read_file e (UserPath p) of
             Inl err \<Rightarrow> app
           | Inr data \<Rightarrow>
               schedule_highlight
                 (app\<lparr>textw := tk_insert 0 data (textw app), file_path := Some p\<rparr>))
        else app
      else app)"

text \<open>
  The toolkit's side of the binding \<open>self.text.bind("<<Modified>>",
  self._on_text_modified)\<close>: Tk raises the notification when an insert or a delete sets
  the widget's modified flag, and the handler bound to it then runs. \<open>deliver_modified\<close>
  is that run of the handler for a widget whose flag is set.
\<close>

definition deliver_modified :: "editor \<Rightarrow> editor" where
  "deliver_modified st = (if modified (textw st) then on_text_modified st else st)"

section \<open>Concrete inputs\<close>

text \<open>The documents, dialogs and environments on which the examples below are evaluated.\<close>

definition w_abcXabc :: text_widget where
  "w_abcXabc = \<lparr>content = str ''abcXabc'', insert_mark = 4, sel = None, modified = False\<rparr>"

definition d_abc :: dialog where
  "d_abc = \<lparr>find_var = str ''abc'', replace_var = [], regex_var = False, case_var = True\<rparr>"

definition d_bad :: dialog where
  "d_bad = \<lparr>find_var = str ''('', replace_var = str ''X'', regex_var = True, case_var = False\<rparr>"

definition d_world :: dialog where
  "d_world = \<lparr>find_var = str ''world'', replace_var = str ''X'', regex_var = False, case_var = True\<rparr>"

definition w_hello :: text_widget where
  "w_hello = \<lparr>content = str ''hello world'', insert_mark = 5, sel = Some (0, 5), modified = False\<rparr>"

definition d_foo :: "bool \<Rightarrow> dialog" where
  "d_foo cs = \<lparr>find_var = str ''foo'', replace_var = str ''bar'', regex_var = False, case_var = cs\<rparr>"

definition w_foo :: text_widget where
  "w_foo = \<lparr>content = str ''foo foo foo'', insert_mark = 0, sel = None, modified = False\<rparr>"

definition w_formfeed :: text_widget where
  "w_formfeed =
     \<lparr>content = [97, 98, 12, 97, 98, 10, 97, 98], insert_mark = 8, sel = Some (6, 8),
      modified = False\<rparr>"

definition d_ab :: dialog where
  "d_ab = \<lparr>find_var = str ''ab'', replace_var = [], regex_var = False, case_var = True\<rparr>"

definition ed_abcde_nl :: editor where
  "ed_abcde_nl =
     \<lparr>textw = \<lparr>content = str ''abcde'' @ [LF], insert_mark = 0, sel = None, modified = False\<rparr>,
      file_path = None, dirty = False, autosave_enabled = True,
      autosave_secs = 10, highlight_after_id = Some 250, autosave_after_id = None,
      syntax_tags = [], effects = []\<rparr>"

definition ed_named_dirty :: editor where
  "ed_named_dirty =
     \<lparr>textw = \<lparr>content = str ''draft text'', insert_mark = 0, sel = None, modified = False\<rparr>,
      file_path = Some (str ''notes.txt''), dirty = True, autosave_enabled = True,
      autosave_secs = 10, highlight_after_id = None, autosave_after_id = Some 10000,
      syntax_tags = [], effects = []\<rparr>"

definition ed_untitled_clean :: editor where
  "ed_untitled_clean =
     \<lparr>textw = \<lparr>content = [], insert_mark = 0, sel = None, modified = False\<rparr>,
      file_path = None, dirty = False, autosave_enabled = True,
      autosave_secs = 10, highlight_after_id = None, autosave_after_id = Some 10000,
      syntax_tags = [], effects = []\<rparr>"

definition ed_blank :: editor where
  "ed_blank =
     \<lparr>textw = \<lparr>content = [32, 9, 10, 8232], insert_mark = 0, sel = None, modified = False\<rparr>,
      file_path = None, dirty = True, autosave_enabled = True,
      autosave_secs = 10, highlight_after_id = Some 250, autosave_after_id = None,
      syntax_tags = [], effects = []\<rparr>"

definition env_disk_full :: env where
  "env_disk_full =
     \<lparr>ask_save = None, open_dialog = [], save_dialog = [],
      is_file = (\<lambda>p. True), read_file = (\<lambda>p. Inl OSError), write_ok = (\<lambda>p. False),
      mkdir_ok = True, now = 1700000000\<rparr>"

definition env_ok :: env where
  "env_ok =
     \<lparr>ask_save = Some False, open_dialog = str ''a.txt'', save_dialog = str ''b.txt'',
      is_file = (\<lambda>p. True), read_file = (\<lambda>p. Inr (str ''hi'')), write_ok = (\<lambda>p. True),
      mkdir_ok = True,
      now = 1700000000\<rparr>"

text \<open>
  A stand-in for Pygments: no lexer is guessed, and the text lexer yields the first five
  characters as a keyword, an empty token, and the rest as text.
\<close>

definition sample_pygments :: "unit pygments" where
  "sample_pygments =
     \<lparr>guess_lexer_for_filename = (\<lambda>name txt. None),
      TextLexer = (),
      lex = (\<lambda>txt lexer. [([''Keyword''], take 5 txt), ([''Text''], []), ([''Text''], drop 5 txt)])\<rparr>"

section \<open>Evaluation rules\<close>

lemmas dialog_eval =
  search_def find_next_def replace_one_def replace_all_def compile_needle_def
  pattern_search_def lit_search_def char_eq_def str_def tk_index_def LF_def CR_def
  index_to_int_def splitlines_keepends_def splitlines_def is_linebreak_def int_to_index_def
  tk_select_def tk_mark_set_insert_def tk_offset_def tk_delete_def tk_insert_def
  after_delete_def

lemmas editor_eval =
  autosave_tick_def schedule_autosave_def status_def showerror_def schedule_highlight_def

section \<open>Offset and index conversion\<close>

text \<open>
  C1. The claim: for every text and every offset \<open>o\<close> from 0 to the length of the text,
  \<open>_index_to_int(_int_to_index(o)) = o\<close>, in particular when the text ends with a newline
  and \<open>o\<close> is its length. On the text \<open>"ab\n"\<close> and the offset 3 the code does not do
  this: \<open>_int_to_index\<close> takes its branch for \<open>pos >= len(text)\<close>, where \<open>splitlines()\<close>
  gives the single line \<open>"ab"\<close>, and answers \<open>1.2\<close>; \<open>_index_to_int\<close> maps \<open>1.2\<close> to 2.
  The index of offset 3 is \<open>2.0\<close>, which the loop of the same method would have computed
  and which \<open>_index_to_int\<close> maps back to 3.
\<close>

theorem roundtrip_lost_after_final_newline:
  "int_to_index (str ''ab'' @ [LF]) 3 = (1, 2) \<and>
   index_to_int (int_to_index (str ''ab'' @ [LF]) 3) (str ''ab'' @ [LF]) = 2 \<and>
   index_loop (str ''ab'' @ [LF]) 3 1 0 = (2, 0) \<and>
   tk_index (str ''ab'' @ [LF]) 3 = (2, 0) \<and>
   index_to_int (2, 0) (str ''ab'' @ [LF]) = 3"
  by (simp add: str_def index_to_int_def int_to_index_def splitlines_def splitlines_keepends_def
      is_linebreak_def CR_def LF_def tk_index_def)

text \<open>
  A second way to lose the offset: the loop counts a line at \<open>\n\<close> only, as Tk does, while
  \<open>splitlines\<close> in \<open>_index_to_int\<close> also ends a line at a form feed.
\<close>

lemma roundtrip_lost_after_form_feed:
  "int_to_index [97, 12, 98, LF, 99] 4 = (2, 0) \<and>
   index_to_int (int_to_index [97, 12, 98, LF, 99] 4) [97, 12, 98, LF, 99] = 2"
  by (simp add: index_to_int_def int_to_index_def splitlines_keepends_def
      is_linebreak_def CR_def LF_def)

text \<open>
  Where the law does hold: in a text whose only line boundaries are \<open>\n\<close>, at every
  offset but the end of a text with a final newline.
\<close>

lemma take_min_length: "take (min n (length xs)) xs = take n xs"
  by (cases "n \<le> length xs") (simp_all add: min_def)

lemma concat_splitlines_keepends: "k \<Longrightarrow> concat (splitlines_acc k cur s) = cur @ s"
  by (induction k cur s rule: splitlines_acc.induct) auto

lemma splitlines_acc_crlf:
  "splitlines_acc k cur (CR # LF # cs) = (cur @ (if k then [CR, LF] else [])) # splitlines_acc k [] cs"
  by simp

lemma splitlines_acc_break:
  assumes "is_linebreak c" "\<not> (c = CR \<and> d = LF)"
  shows "splitlines_acc k cur (c # d # cs) =
           (cur @ (if k then [c] else [])) # splitlines_acc k [] (d # cs)"
proof -
  from assms(2) have n: "(c = CR \<and> d = LF) = False" by blast
  show ?thesis by (simp only: splitlines_acc.simps n if_False assms(1) if_True)
qed

lemma splitlines_acc_plain:
  assumes "\<not> is_linebreak c"
  shows "splitlines_acc k cur (c # d # cs) = splitlines_acc k (cur @ [c]) (d # cs)"
proof -
  have "is_linebreak CR" by (simp add: is_linebreak_def CR_def)
  with assms have "c \<noteq> CR" by blast
  then have n: "(c = CR \<and> d = LF) = False" by blast
  from assms have m: "is_linebreak c = False" by blast
  show ?thesis by (simp only: splitlines_acc.simps n m if_False)
qed

lemma length_splitlines_acc:
  "(cur = [] \<longleftrightarrow> cur' = []) \<Longrightarrow>
     length (splitlines_acc k cur s) = length (splitlines_acc k' cur' s)"
proof (induction k cur s arbitrary: cur' rule: splitlines_acc.induct)
  case (1 keep cur)
  then show ?case by simp
next
  case (2 keep cur c)
  then show ?case by simp
next
  case (3 keep cur c d cs)
  show ?case
  proof (cases "c = CR \<and> d = LF")
    case True
    with "3.IH"(1)[of "[]"] show ?thesis by (simp add: splitlines_acc_crlf del: splitlines_acc.simps)
  next
    case False
    show ?thesis
    proof (cases "is_linebreak c")
      case True
      with False "3.IH"(2)[of "[]"] show ?thesis
        by (simp add: splitlines_acc_break[OF True False] del: splitlines_acc.simps)
    next
      case nb: False
      with False "3.IH"(3)[of "cur' @ [c]"] show ?thesis
        by (simp add: splitlines_acc_plain[OF nb] del: splitlines_acc.simps)
    qed
  qed
qed

lemma splitlines_acc_nonempty: "cur @ s \<noteq> [] \<Longrightarrow> splitlines_acc k cur s \<noteq> []"
proof (induction k cur s rule: splitlines_acc.induct)
  case (3 keep cur c d cs)
  show ?case
  proof (cases "c = CR \<and> d = LF")
    case True
    then show ?thesis by (simp add: splitlines_acc_crlf del: splitlines_acc.simps)
  next
    case False
    show ?thesis
    proof (cases "is_linebreak c")
      case True
      then show ?thesis by (simp add: splitlines_acc_break[OF True False] del: splitlines_acc.simps)
    next
      case nb: False
      with False "3.IH"(3) show ?thesis
        by (simp add: splitlines_acc_plain[OF nb] del: splitlines_acc.simps)
    qed
  qed
qed simp_all

lemma last_splitlines_acc:
  "cur @ s \<noteq> [] \<Longrightarrow> \<not> is_linebreak (last (cur @ s)) \<Longrightarrow>
     last (splitlines_acc True cur s) = last (splitlines_acc False cur s)"
proof (induction True cur s rule: splitlines_acc.induct)
  case (1 cur)
  then show ?case by simp
next
  case (2 cur c)
  then show ?case by simp
next
  case (3 cur c d cs)
  have lb: "is_linebreak LF" by (simp add: is_linebreak_def LF_def)
  show ?case
  proof (cases "c = CR \<and> d = LF")
    case True
    with "3.prems" lb have ne: "cs \<noteq> []" by (auto split: if_splits)
    with "3.prems" have nl: "\<not> is_linebreak (last ([] @ cs))" by simp
    from ne have n1: "splitlines_acc True [] cs \<noteq> []" "splitlines_acc False [] cs \<noteq> []"
      by (simp_all add: splitlines_acc_nonempty)
    from "3.hyps"(1) True ne nl have "last (splitlines_acc True [] cs) = last (splitlines_acc False [] cs)"
      by simp
    with True n1 show ?thesis by (simp add: splitlines_acc_crlf del: splitlines_acc.simps)
  next
    case False
    show ?thesis
    proof (cases "is_linebreak c")
      case True
      from "3.prems" have nl: "\<not> is_linebreak (last ([] @ d # cs))" by simp
      have n1: "splitlines_acc True [] (d # cs) \<noteq> []" "splitlines_acc False [] (d # cs) \<noteq> []"
        by (simp_all add: splitlines_acc_nonempty del: splitlines_acc.simps)
      from "3.hyps"(2) False True nl
      have "last (splitlines_acc True [] (d # cs)) = last (splitlines_acc False [] (d # cs))"
        by simp
      with n1 show ?thesis by (simp add: splitlines_acc_break[OF True False] del: splitlines_acc.simps)
    next
      case nb: False
      from "3.prems" have nl: "\<not> is_linebreak (last ((cur @ [c]) @ d # cs))" by simp
      from "3.hyps"(3) False nb nl
      have "last (splitlines_acc True (cur @ [c]) (d # cs)) = last (splitlines_acc False (cur @ [c]) (d # cs))"
        by simp
      then show ?thesis by (simp add: splitlines_acc_plain[OF nb] del: splitlines_acc.simps)
    qed
  qed
qed


lemma splitlines_acc_LF:
  "splitlines_acc k cur (LF # rest) = (cur @ (if k then [LF] else [])) # splitlines_acc k [] rest"
proof (cases rest)
  case Nil
  then show ?thesis by (simp add: is_linebreak_def LF_def)
next
  case (Cons d cs)
  have "is_linebreak LF" "\<not> (LF = CR \<and> d = LF)" by (simp_all add: is_linebreak_def LF_def CR_def)
  from splitlines_acc_break[OF this] Cons show ?thesis by simp
qed

lemma splitlines_acc_char:
  "\<not> is_linebreak c \<Longrightarrow> splitlines_acc k cur (c # rest) = splitlines_acc k (cur @ [c]) rest"
proof (cases rest)
  case Nil
  assume "\<not> is_linebreak c"
  with Nil show ?thesis by simp
next
  case (Cons d cs)
  assume "\<not> is_linebreak c"
  from splitlines_acc_plain[OF this] Cons show ?thesis by simp
qed

lemma index_loop_line: "line \<le> fst (index_loop t pos line col)"
proof (induction t arbitrary: pos line col)
  case Nil
  then show ?case by simp
next
  case (Cons c rest)
  have "line + 1 \<le> fst (index_loop rest (pos - 1) (line + 1) 0)" by (rule Cons.IH)
  moreover have "line \<le> fst (index_loop rest (pos - 1) line (col + 1))" by (rule Cons.IH)
  ultimately show ?case by auto
qed

lemma index_loop_offset:
  assumes "\<forall>c\<in>set t. is_linebreak c \<longrightarrow> c = LF" "pos \<le> length t" "col = length cur"
  shows "sum_list (map length (take (fst (index_loop t pos line col) - line) (splitlines_acc True cur t)))
           + snd (index_loop t pos line col) = length cur + pos"
  using assms
proof (induction t arbitrary: pos line col cur)
  case Nil
  then show ?case by simp
next
  case (Cons c rest)
  show ?case
  proof (cases "pos = 0")
    case True
    with Cons.prems show ?thesis by (simp del: splitlines_acc.simps)
  next
    case False
    with Cons.prems have p: "pos - 1 \<le> length rest" by simp
    from Cons.prems have A: "\<forall>c\<in>set rest. is_linebreak c \<longrightarrow> c = LF" by simp
    show ?thesis
    proof (cases "c = LF")
      case True
      let ?r = "index_loop rest (pos - 1) (line + 1) 0"
      have ih: "sum_list (map length (take (fst ?r - (line + 1)) (splitlines_acc True [] rest)))
                  + snd ?r = length ([]::pystr) + (pos - 1)"
        by (rule Cons.IH[OF A p]) simp
      have ge: "line + 1 \<le> fst ?r" by (rule index_loop_line)
      then have t: "fst ?r - line = Suc (fst ?r - (line + 1))" by simp
      have il: "index_loop (c # rest) pos line col = ?r" using False True by simp
      have tk: "take (fst ?r - line) ((cur @ [LF]) # splitlines_acc True [] rest) =
                  (cur @ [LF]) # take (fst ?r - (line + 1)) (splitlines_acc True [] rest)"
        unfolding t by simp
      have "sum_list (map length (take (fst ?r - line) (splitlines_acc True cur (c # rest))))
              + snd ?r = length cur + pos"
        unfolding True splitlines_acc_LF if_True tk using ih False by simp
      then show ?thesis unfolding il .
    next
      case nl: False
      with Cons.prems(1) have nb: "\<not> is_linebreak c" by auto
      let ?r = "index_loop rest (pos - 1) line (col + 1)"
      have ih: "sum_list (map length (take (fst ?r - line) (splitlines_acc True (cur @ [c]) rest)))
                  + snd ?r = length (cur @ [c]) + (pos - 1)"
        by (rule Cons.IH[OF A p]) (use Cons.prems in simp)
      have il: "index_loop (c # rest) pos line col = ?r" using False nl by simp
      have "sum_list (map length (take (fst ?r - line) (splitlines_acc True cur (c # rest))))
              + snd ?r = length cur + pos"
        unfolding splitlines_acc_char[OF nb] using ih False by simp
      then show ?thesis unfolding il .
    qed
  qed
qed

lemma index_to_int_loop:
  assumes "\<forall>c\<in>set t. is_linebreak c \<longrightarrow> c = LF" "pos \<le> length t"
  shows "index_to_int (index_loop t pos 1 0) t = pos"
  using index_loop_offset[OF assms, of 0 "[]" 1]
  by (simp add: index_to_int_def splitlines_keepends_def Let_def take_min_length
      del: splitlines_acc.simps)

lemma index_to_int_end:
  assumes "t \<noteq> []" "\<not> is_linebreak (last t)"
  shows "index_to_int (int_to_index t (length t)) t = length t"
proof -
  let ?ks = "splitlines_acc True [] t"
  let ?ls = "splitlines_acc False [] t"
  have ne: "?ks \<noteq> []" "?ls \<noteq> []" using assms(1) by (simp_all add: splitlines_acc_nonempty)
  have len: "length ?ls = length ?ks" by (rule length_splitlines_acc) simp
  have lst: "last ?ks = last ?ls" using last_splitlines_acc[of "[]" t] assms by simp
  from ne have l1: "1 \<le> length ?ks" by (cases ?ks) simp_all
  have i: "int_to_index t (length t) = (length ?ks, length (last ?ks))"
    using assms(1) ne l1 by (simp add: int_to_index_def splitlines_def Let_def len lst max_def)
  have "sum_list (map length (take (length ?ks - 1) ?ks)) + length (last ?ks)
          = sum_list (map length (butlast ?ks @ [last ?ks]))"
    by (simp add: butlast_conv_take)
  also have "\<dots> = sum_list (map length ?ks)" using ne(1) by simp
  also have "\<dots> = length (concat ?ks)" by (simp add: length_concat)
  also have "\<dots> = length t" by (simp add: concat_splitlines_keepends)
  finally show ?thesis
    by (simp add: i index_to_int_def splitlines_keepends_def Let_def take_min_length)
qed

lemma roundtrip_where_it_holds:
  assumes "\<forall>c\<in>set t. is_linebreak c \<longrightarrow> c = LF" "pos \<le> length t"
    "pos < length t \<or> t = [] \<or> last t \<noteq> LF"
  shows "index_to_int (int_to_index t pos) t = pos"
proof (cases "pos = 0")
  case True
  then show ?thesis by (simp add: int_to_index_def index_to_int_def)
next
  case False
  show ?thesis
  proof (cases "pos < length t")
    case True
    with False have "int_to_index t pos = index_loop t pos 1 0" by (simp add: int_to_index_def)
    with index_to_int_loop[OF assms(1,2)] show ?thesis by simp
  next
    case ge: False
    with assms(2) have e: "pos = length t" by simp
    with False have ne: "t \<noteq> []" by simp
    with assms(3) ge have "last t \<noteq> LF" by simp
    moreover from ne have "last t \<in> set t" by simp
    ultimately have "\<not> is_linebreak (last t)" using assms(1) by blast
    from index_to_int_end[OF ne this] e show ?thesis by simp
  qed
qed

section \<open>Search\<close>

text \<open>A literal search finds nothing exactly when the needle occurs nowhere.\<close>

lemma lit_find_None:
  "lit_find eq n t off = None \<longleftrightarrow> (\<forall>i. \<not> matches_here eq n (drop i t))"
proof (induction t arbitrary: off)
  case Nil
  then show ?case by (cases n) auto
next
  case (Cons c cs)
  have "(\<forall>i. \<not> matches_here eq n (drop i (c # cs))) \<longleftrightarrow>
        \<not> matches_here eq n (c # cs) \<and> (\<forall>i. \<not> matches_here eq n (drop i cs))"
  proof
    assume a: "\<forall>i. \<not> matches_here eq n (drop i (c # cs))"
    from a[rule_format, of 0] have 1: "\<not> matches_here eq n (c # cs)" by simp
    have "\<not> matches_here eq n (drop i cs)" for i
      using a[rule_format, of "Suc i"] by simp
    with 1 show "\<not> matches_here eq n (c # cs) \<and> (\<forall>i. \<not> matches_here eq n (drop i cs))" by simp
  next
    assume a: "\<not> matches_here eq n (c # cs) \<and> (\<forall>i. \<not> matches_here eq n (drop i cs))"
    show "\<forall>i. \<not> matches_here eq n (drop i (c # cs))"
    proof
      fix i show "\<not> matches_here eq n (drop i (c # cs))"
        using a by (cases i) simp_all
    qed
  qed
  with Cons.IH[of "Suc off"] show ?case by simp
qed

text \<open>What it finds is the leftmost occurrence.\<close>

lemma lit_find_Some:
  "lit_find eq n t off = Some i \<Longrightarrow>
     off \<le> i \<and> matches_here eq n (drop (i - off) t) \<and>
     (\<forall>j < i - off. \<not> matches_here eq n (drop j t))"
proof (induction t arbitrary: off)
  case Nil
  then show ?case by (cases n) (auto split: if_splits)
next
  case (Cons c cs)
  show ?case
  proof (cases "matches_here eq n (c # cs)")
    case True
    with Cons.prems show ?thesis by simp
  next
    case False
    with Cons.prems have "lit_find eq n cs (Suc off) = Some i" by simp
    from Cons.IH[OF this] have ih: "Suc off \<le> i" "matches_here eq n (drop (i - Suc off) cs)"
      "\<forall>j < i - Suc off. \<not> matches_here eq n (drop j cs)" by simp_all
    from ih(1) have e: "i - off = Suc (i - Suc off)" by simp
    have "\<not> matches_here eq n (drop j (c # cs))" if "j < i - off" for j
      using that False ih(3) e by (cases j) simp_all
    with ih e show ?thesis by simp
  qed
qed

lemma lit_search_None:
  "lit_search eq n t pos = None \<longleftrightarrow> (\<forall>i\<ge>pos. \<not> matches_here eq n (drop i t))"
proof -
  have "lit_search eq n t pos = None \<longleftrightarrow> lit_find eq n (drop pos t) (min pos (length t)) = None"
    by (simp add: lit_search_def split: option.splits)
  also have "\<dots> \<longleftrightarrow> (\<forall>k. \<not> matches_here eq n (drop k (drop pos t)))"
    by (rule lit_find_None)
  also have "\<dots> \<longleftrightarrow> (\<forall>i\<ge>pos. \<not> matches_here eq n (drop i t))"
  proof
    assume a: "\<forall>k. \<not> matches_here eq n (drop k (drop pos t))"
    show "\<forall>i\<ge>pos. \<not> matches_here eq n (drop i t)"
    proof (intro allI impI)
      fix i assume "pos \<le> i"
      with a[rule_format, of "i - pos"] show "\<not> matches_here eq n (drop i t)" by simp
    qed
  next
    assume a: "\<forall>i\<ge>pos. \<not> matches_here eq n (drop i t)"
    show "\<forall>k. \<not> matches_here eq n (drop k (drop pos t))"
    proof
      fix k from a[rule_format, of "k + pos"] show "\<not> matches_here eq n (drop k (drop pos t))"
        by simp
    qed
  qed
  finally show ?thesis .
qed

lemma lit_search_Some:
  assumes "n \<noteq> []" "lit_search eq n t pos = Some (a, b)"
  shows "pos \<le> a \<and> b = a + length n \<and> matches_here eq n (drop a t) \<and>
         (\<forall>j. pos \<le> j \<and> j < a \<longrightarrow> \<not> matches_here eq n (drop j t))"
proof -
  from assms(2) have f: "lit_find eq n (drop pos t) (min pos (length t)) = Some a"
    and b: "b = a + length n"
    by (auto simp: lit_search_def split: option.splits)
  have le: "pos \<le> length t"
  proof (rule ccontr)
    assume "\<not> pos \<le> length t"
    then have "drop pos t = []" by simp
    with f assms(1) show False by simp
  qed
  then have m: "min pos (length t) = pos" by simp
  from lit_find_Some[OF f] have 0: "min pos (length t) \<le> a"
    "matches_here eq n (drop (a - min pos (length t)) (drop pos t))"
    "\<forall>j < a - min pos (length t). \<not> matches_here eq n (drop j (drop pos t))" by blast+
  from 0(1) m have 1: "pos \<le> a" by simp
  then have d: "drop (a - pos) (drop pos t) = drop a t" by simp
  from 0(2) have 2: "matches_here eq n (drop a t)" unfolding m d .
  have "\<not> matches_here eq n (drop j t)" if "pos \<le> j" "j < a" for j
  proof -
    from that have "j - pos < a - min pos (length t)" using m by simp
    with 0(3) have *: "\<not> matches_here eq n (drop (j - pos) (drop pos t))" by blast
    from that have e: "drop (j - pos) (drop pos t) = drop j t" by simp
    from * show ?thesis unfolding e .
  qed
  with 1 2 b show ?thesis by simp
qed

text \<open>The document \<open>"abcXabc"\<close>, the literal \<open>"abc"\<close>, case-sensitive, for any engine.\<close>

lemma search_abc_from_4: "search re d_abc w_abcXabc = Inr (Some ((1, 0), (1, 3)))"
  by (simp add: d_abc_def w_abcXabc_def dialog_eval)

lemma find_next_abc_from_4:
  "snd (find_next re d_abc w_abcXabc) = w_abcXabc\<lparr>sel := Some (0, 3), insert_mark := 3\<rparr>"
  by (simp add: d_abc_def w_abcXabc_def dialog_eval)

lemma search_abc_from_3:
  "search re d_abc (w_abcXabc\<lparr>sel := Some (0, 3), insert_mark := 3\<rparr>) = Inr (Some ((1, 4), (1, 7)))"
  by (simp add: d_abc_def w_abcXabc_def dialog_eval)

text \<open>
  The offset \<open>_search\<close> starts from is \<open>_index_to_int(text.index("insert"))\<close>. When \<open>\n\<close>
  is the only line boundary of \<open>str.splitlines\<close> in the text, it is the offset of the
  insert mark.
\<close>

lemma tk_index_from_loop: "tk_index_from t off line col = index_loop t off line col"
  by (induction t arbitrary: off line col) simp_all

lemma start_offset_is_mark:
  assumes "\<forall>c\<in>set t. is_linebreak c \<longrightarrow> c = LF" "m \<le> length t"
  shows "index_to_int (tk_index t m) t = m"
  unfolding tk_index_def tk_index_from_loop by (rule index_to_int_loop[OF assms])

text \<open>
  C2, as stated, fails on its own example. In \<open>"abcXabc"\<close> with the insert mark at offset
  4, \<open>_search\<close> looks for \<open>"abc"\<close> from offset 5, so the match that begins at 4 is passed
  over: the result is the wrapped match \<open>[0, 3)\<close>, the indices \<open>1.0\<close> and \<open>1.3\<close>, and not
  \<open>[4, 7)\<close>.
\<close>

theorem search_from_4_skips_match_at_4:
  "tk_index (content w_abcXabc) (insert_mark w_abcXabc) = (1, 4) \<and>
   search plain_re d_abc w_abcXabc = Inr (Some ((1, 0), (1, 3))) \<and>
   search plain_re d_abc w_abcXabc \<noteq> Inr (Some ((1, 4), (1, 7)))"
  by (simp add: d_abc_def w_abcXabc_def dialog_eval)

text \<open>
  Where the text holds another line boundary of \<open>str.splitlines\<close>, here a form feed, the
  start offset is not the offset of the insert mark (the conversion of C1). In
  \<open>"ab\fab\nab"\<close> with the last \<open>"ab"\<close> selected and the insert mark at the end, offset 8,
  the search starts from offset 5 and finds the selected match again instead of wrapping
  to the first one: \<open>find_next\<close> changes nothing.
\<close>

lemma search_start_lost_after_form_feed:
  "insert_mark w_formfeed = length (content w_formfeed) \<and>
   lit_search (=) (str ''ab'') (content w_formfeed) 0 = Some (0, 2) \<and>
   index_to_int (tk_index (content w_formfeed) (insert_mark w_formfeed)) (content w_formfeed) = 5 \<and>
   search plain_re d_ab w_formfeed = Inr (Some ((2, 0), (3, 2))) \<and>
   find_next plain_re d_ab w_formfeed = (Inr (), w_formfeed)"
  by (simp add: d_ab_def w_formfeed_def dialog_eval)

text \<open>
  C2, amended. On \<open>"abcXabc"\<close> and the case-sensitive literal \<open>"abc"\<close>, \<open>_search\<close> with the
  insert mark at offset 4 returns \<open>[0, 3)\<close>; \<open>find_next\<close> selects it and moves the mark
  to 3, and \<open>_search\<close> from there returns \<open>[4, 7)\<close>. An empty pattern gives no match. For
  a text whose only line boundary of \<open>str.splitlines\<close> is \<open>\n\<close> and any pattern that
  compiles, literal or regex: \<open>_search\<close> returns the indices of what \<open>pattern.search\<close>
  finds from the offset of the insert mark plus one; when that finds nothing, of what it
  finds from offset 0; and no match when that finds nothing either. For every text,
  \<open>_search\<close> returns no match only if the pattern is empty or \<open>pattern.search\<close> finds
  nothing from offset 0. For a literal pattern \<open>pattern.search\<close> finds nothing from
  \<open>pos\<close> exactly when the pattern occurs nowhere at or after \<open>pos\<close>, and what it finds is
  the first occurrence at or after \<open>pos\<close>.
\<close>

theorem search_from_insert_mark_then_wrap:
  "search re d_abc w_abcXabc = Inr (Some ((1, 0), (1, 3))) \<and>
   snd (find_next re d_abc w_abcXabc) = w_abcXabc\<lparr>sel := Some (0, 3), insert_mark := 3\<rparr> \<and>
   search re d_abc (snd (find_next re d_abc w_abcXabc)) = Inr (Some ((1, 4), (1, 7))) \<and>
   (find_var d = [] \<longrightarrow> search re d w = Inr None) \<and>
   (find_var d \<noteq> [] \<longrightarrow> compile_needle re d = Inr p \<longrightarrow>
    (\<forall>c\<in>set (content w). is_linebreak c \<longrightarrow> c = LF) \<longrightarrow>
    insert_mark w \<le> length (content w) \<longrightarrow>
      (\<forall>a b. pattern_search re p (content w) (insert_mark w + 1) = Some (a, b) \<longrightarrow>
         search re d w = Inr (Some (int_to_index (content w) a, int_to_index (content w) b))) \<and>
      (pattern_search re p (content w) (insert_mark w + 1) = None \<longrightarrow>
         (\<forall>a b. pattern_search re p (content w) 0 = Some (a, b) \<longrightarrow>
            search re d w = Inr (Some (int_to_index (content w) a, int_to_index (content w) b))) \<and>
         (pattern_search re p (content w) 0 = None \<longrightarrow> search re d w = Inr None))) \<and>
   (search re d w = Inr None \<longrightarrow>
      find_var d = [] \<or>
      (\<exists>q. compile_needle re d = Inr q \<and> pattern_search re q (content w) 0 = None)) \<and>
   (n \<noteq> [] \<longrightarrow>
      (pattern_search re (Literal n ic) t pos = None \<longleftrightarrow>
         (\<forall>i\<ge>pos. \<not> matches_here (char_eq re ic) n (drop i t))) \<and>
      (\<forall>a b. pattern_search re (Literal n ic) t pos = Some (a, b) \<longrightarrow>
         pos \<le> a \<and> b = a + length n \<and> matches_here (char_eq re ic) n (drop a t) \<and>
         (\<forall>j. pos \<le> j \<and> j < a \<longrightarrow> \<not> matches_here (char_eq re ic) n (drop j t))))"
proof (intro conjI impI allI)
  show "search re d_abc w_abcXabc = Inr (Some ((1, 0), (1, 3)))" by (rule search_abc_from_4)
  show "snd (find_next re d_abc w_abcXabc) = w_abcXabc\<lparr>sel := Some (0, 3), insert_mark := 3\<rparr>"
    by (rule find_next_abc_from_4)
  show "search re d_abc (snd (find_next re d_abc w_abcXabc)) = Inr (Some ((1, 4), (1, 7)))"
    by (simp only: find_next_abc_from_4 search_abc_from_3)
  show "search re d w = Inr None" if "find_var d = []"
    using that by (simp add: search_def)
next
  assume "search re d w = Inr None"
  then show "find_var d = [] \<or>
      (\<exists>q. compile_needle re d = Inr q \<and> pattern_search re q (content w) 0 = None)"
    by (auto simp: search_def Let_def split: if_splits sum.splits option.splits prod.splits)
next
  show "(pattern_search re (Literal n ic) t pos = None) =
          (\<forall>i\<ge>pos. \<not> matches_here (char_eq re ic) n (drop i t))"
    by (simp add: pattern_search_def lit_search_None)
next
  fix a b
  assume n: "n \<noteq> []" and s: "pattern_search re (Literal n ic) t pos = Some (a, b)"
  from s have "lit_search (char_eq re ic) n t pos = Some (a, b)" by (simp add: pattern_search_def)
  from lit_search_Some[OF n this]
  show "pos \<le> a" "b = a + length n" "matches_here (char_eq re ic) n (drop a t)"
    "\<And>j. pos \<le> j \<and> j < a \<Longrightarrow> \<not> matches_here (char_eq re ic) n (drop j t)"
    by blast+
next
  fix a b
  assume h: "find_var d \<noteq> []" "compile_needle re d = Inr p"
    "\<forall>c\<in>set (content w). is_linebreak c \<longrightarrow> c = LF" "insert_mark w \<le> length (content w)"
  have s: "index_to_int (tk_index (content w) (insert_mark w)) (content w) = insert_mark w"
    by (rule start_offset_is_mark[OF h(3,4)])
  {
    assume "pattern_search re p (content w) (insert_mark w + 1) = Some (a, b)"
    with h(1,2) s
    show "search re d w = Inr (Some (int_to_index (content w) a, int_to_index (content w) b))"
      by (simp add: search_def Let_def)
  }
  {
    assume "pattern_search re p (content w) (insert_mark w + 1) = None"
      "pattern_search re p (content w) 0 = Some (a, b)"
    with h(1,2) s
    show "search re d w = Inr (Some (int_to_index (content w) a, int_to_index (content w) b))"
      by (simp add: search_def Let_def)
  }
next
  assume h: "find_var d \<noteq> []" "compile_needle re d = Inr p"
    "\<forall>c\<in>set (content w). is_linebreak c \<longrightarrow> c = LF" "insert_mark w \<le> length (content w)"
    "pattern_search re p (content w) (insert_mark w + 1) = None"
    "pattern_search re p (content w) 0 = None"
  have s: "index_to_int (tk_index (content w) (insert_mark w)) (content w) = insert_mark w"
    by (rule start_offset_is_mark[OF h(3,4)])
  with h show "search re d w = Inr None"
    by (simp add: search_def Let_def)
qed

theorem search_from_insert_mark_then_wrap_witness:
  "find_var d_abc \<noteq> [] \<and>
   compile_needle plain_re d_abc = Inr (Literal (str ''abc'') False) \<and>
   list_all (\<lambda>c. \<not> is_linebreak c) (content w_abcXabc) \<and>
   insert_mark w_abcXabc \<le> length (content w_abcXabc) \<and>
   pattern_search plain_re (Literal (str ''abc'') False) (content w_abcXabc) (insert_mark w_abcXabc + 1) = None \<and>
   pattern_search plain_re (Literal (str ''abc'') False) (content w_abcXabc) 0 = Some (0, 3) \<and>
   search plain_re d_abc w_abcXabc =
     Inr (Some (int_to_index (content w_abcXabc) 0, int_to_index (content w_abcXabc) 3)) \<and>
   compile_needle plain_re (d_abc\<lparr>regex_var := True\<rparr>) = Inr (Regex (str ''abc'') False) \<and>
   pattern_search plain_re (Regex (str ''abc'') False) (content (w_abcXabc\<lparr>insert_mark := 3\<rparr>))
     (insert_mark (w_abcXabc\<lparr>insert_mark := 3\<rparr>) + 1) = Some (4, 7) \<and>
   search plain_re (d_abc\<lparr>regex_var := True\<rparr>) (w_abcXabc\<lparr>insert_mark := 3\<rparr>) =
     Inr (Some (int_to_index (content (w_abcXabc\<lparr>insert_mark := 3\<rparr>)) 4,
                int_to_index (content (w_abcXabc\<lparr>insert_mark := 3\<rparr>)) 7))"
proof -
  let ?w3 = "w_abcXabc\<lparr>insert_mark := 3\<rparr>"
  let ?dr = "d_abc\<lparr>regex_var := True\<rparr>"
  let ?p = "Literal (str ''abc'') False"
  let ?q = "Regex (str ''abc'') False"
  have h1: "find_var d_abc \<noteq> []" "find_var ?dr \<noteq> []" by (simp_all add: d_abc_def str_def)
  have h2: "compile_needle plain_re d_abc = Inr ?p"
    by (simp add: compile_needle_def d_abc_def)
  have h2r: "compile_needle plain_re ?dr = Inr ?q"
    by (simp add: compile_needle_def d_abc_def plain_re_def is_special_def BACKSLASH_def str_def)
  have h3: "list_all (\<lambda>c. \<not> is_linebreak c) (content w_abcXabc)"
    by (simp add: w_abcXabc_def str_def is_linebreak_def)
  then have A: "\<forall>c\<in>set (content w_abcXabc). is_linebreak c \<longrightarrow> c = LF"
    "\<forall>c\<in>set (content ?w3). is_linebreak c \<longrightarrow> c = LF"
    by (simp_all add: list_all_iff)
  have h4: "insert_mark w_abcXabc \<le> length (content w_abcXabc)"
    "insert_mark ?w3 \<le> length (content ?w3)"
    by (simp_all add: w_abcXabc_def str_def)
  have h5: "pattern_search plain_re ?p (content w_abcXabc) (insert_mark w_abcXabc + 1) = None"
    by (simp add: w_abcXabc_def pattern_search_def lit_search_def char_eq_def str_def)
  have h6: "pattern_search plain_re ?p (content w_abcXabc) 0 = Some (0, 3)"
    by (simp add: w_abcXabc_def pattern_search_def lit_search_def char_eq_def str_def)
  have h7: "pattern_search plain_re ?q (content ?w3) (insert_mark ?w3 + 1) = Some (4, 7)"
    by (simp add: w_abcXabc_def pattern_search_def plain_re_def lit_search_def str_def)
  note g = search_from_insert_mark_then_wrap[of plain_re d_abc w_abcXabc ?p, THEN conjunct2, THEN conjunct2, THEN conjunct2,
      THEN conjunct2, THEN conjunct1, THEN mp, OF h1(1), THEN mp, OF h2, THEN mp, OF A(1),
      THEN mp, OF h4(1)]
  note g2 = g[THEN conjunct2, THEN mp, OF h5, THEN conjunct1, THEN spec, THEN spec, THEN mp, OF h6]
  have a: "search plain_re d_abc w_abcXabc =
     Inr (Some (int_to_index (content w_abcXabc) 0, int_to_index (content w_abcXabc) 3))"
    by (rule g2)
  note r = search_from_insert_mark_then_wrap[of plain_re ?dr ?w3 ?q, THEN conjunct2, THEN conjunct2, THEN conjunct2,
      THEN conjunct2, THEN conjunct1, THEN mp, OF h1(2), THEN mp, OF h2r, THEN mp, OF A(2),
      THEN mp, OF h4(2)]
  note r2 = r[THEN conjunct1, THEN spec, THEN spec, THEN mp, OF h7]
  have b: "search plain_re ?dr ?w3 =
     Inr (Some (int_to_index (content ?w3) 4, int_to_index (content ?w3) 7))"
    by (rule r2)
  from h1(1) h2 h3 h4(1) h5 h6 a h2r h7 b show ?thesis by (intro conjI)
qed

section \<open>Invalid patterns\<close>

text \<open>
  C3, as stated, fails. The pattern \<open>(\<close> is not a regular expression. \<open>find_next\<close> and
  \<open>replace_all\<close> do not report a failure of their own: the \<open>re.error\<close> raised by
  \<open>re.compile\<close> leaves them. \<open>replace_one\<close>, called while \<open>"hello"\<close> is selected,
  never compiles the pattern and replaces the selection.
\<close>

theorem invalid_regex_escapes_or_is_ignored:
  "regex_var d_bad \<and> find_var d_bad \<noteq> [] \<and> \<not> rx_valid plain_re (find_var d_bad) \<and>
   find_next plain_re d_bad (w_hello\<lparr>sel := None\<rparr>) = (Inl ReError, w_hello\<lparr>sel := None\<rparr>) \<and>
   replace_all plain_re d_bad w_hello = (Inl ReError, w_hello) \<and>
   replace_one plain_re d_bad w_hello =
     (Inr (), \<lparr>content = str ''X world'', insert_mark = 1, sel = None, modified = True\<rparr>)"
  by (simp add: d_bad_def w_hello_def plain_re_def is_special_def BACKSLASH_def dialog_eval)

text \<open>
  C3, amended. For every non-empty invalid regex pattern with the regex option set,
  \<open>_search\<close>, \<open>find_next\<close> and \<open>replace_all\<close>, and \<open>replace_one\<close> when nothing is
  selected, end with the \<open>re.error\<close> of \<open>re.compile\<close>, which nothing in the dialog
  catches; the exception is raised before the widget is touched, so the text, the
  selection and the insert mark are as before.
\<close>

theorem invalid_regex_raises:
  "regex_var d \<Longrightarrow> find_var d \<noteq> [] \<Longrightarrow> \<not> rx_valid re (find_var d) \<Longrightarrow>
     search re d w = Inl ReError \<and> find_next re d w = (Inl ReError, w) \<and>
     replace_all re d w = (Inl ReError, w) \<and>
     (sel w = None \<longrightarrow> replace_one re d w = (Inl ReError, w))"
  by (simp add: search_def find_next_def replace_all_def replace_one_def compile_needle_def Let_def)

theorem invalid_regex_raises_witness:
  "regex_var d_bad \<and> find_var d_bad \<noteq> [] \<and> \<not> rx_valid plain_re (find_var d_bad) \<and>
   search plain_re d_bad w_abcXabc = Inl ReError \<and>
   find_next plain_re d_bad w_abcXabc = (Inl ReError, w_abcXabc) \<and>
   replace_all plain_re d_bad w_abcXabc = (Inl ReError, w_abcXabc) \<and>
   sel w_abcXabc = None \<and>
   replace_one plain_re d_bad w_abcXabc = (Inl ReError, w_abcXabc)"
proof -
  have h1: "regex_var d_bad" by (simp add: d_bad_def)
  have h2: "find_var d_bad \<noteq> []" by (simp add: d_bad_def str_def)
  have h3: "\<not> rx_valid plain_re (find_var d_bad)"
    by (simp add: d_bad_def plain_re_def is_special_def str_def)
  have h4: "sel w_abcXabc = None" by (simp add: w_abcXabc_def)
  from invalid_regex_raises[OF h1 h2 h3, of w_abcXabc] h1 h2 h3 h4 show ?thesis by blast
qed

section \<open>\<open>replace_one\<close>\<close>

lemma find_next_content: "content (snd (find_next re d w)) = content w"
  by (simp add: find_next_def tk_select_def tk_mark_set_insert_def Let_def split: sum.splits option.splits prod.splits)

text \<open>
  C4, as stated, fails. In \<open>"hello world"\<close> with \<open>"hello"\<close> selected, the pattern \<open>"world"\<close>
  and the replacement \<open>"X"\<close>, the selection is not the match a \<open>find_next\<close> selects, which
  is \<open>[6, 11)\<close>; \<open>replace_one\<close> replaces the selection all the same.
\<close>

theorem replace_one_replaces_unmatched_selection:
  "search plain_re d_world w_hello = Inr (Some ((1, 6), (1, 11))) \<and>
   find_next plain_re d_world w_hello = (Inr (), w_hello\<lparr>sel := Some (6, 11), insert_mark := 11\<rparr>) \<and>
   replace_one plain_re d_world w_hello =
     (Inr (), \<lparr>content = str ''X world'', insert_mark = 1, sel = None, modified = True\<rparr>)"
  by (simp add: d_world_def w_hello_def dialog_eval)

text \<open>
  \<open>replace_one\<close> with the characters \<open>[a, b)\<close> selected: they are deleted and the
  replacement is inserted at the insert mark, wherever the mark is.
\<close>

lemma replace_one_selected:
  assumes "sel w = Some (a, b)" "a < b" "b \<le> length (content w)"
    "insert_mark w \<le> length (content w)"
  shows "fst (replace_one re d w) = Inr ()"
    and "content (snd (replace_one re d w)) =
       (if insert_mark w < a
        then take (insert_mark w) (content w) @ replace_var d @
             drop (insert_mark w) (take a (content w)) @ drop b (content w)
        else if insert_mark w \<le> b
        then take a (content w) @ replace_var d @ drop b (content w)
        else take a (content w) @ take (insert_mark w - b) (drop b (content w)) @
             replace_var d @ drop (insert_mark w) (content w))"
    and "insert_mark (snd (replace_one re d w)) =
       (if insert_mark w < a then insert_mark w
        else if insert_mark w \<le> b then a
        else insert_mark w - (b - a)) + length (replace_var d)"
proof -
  let ?t = "content w" and ?m = "insert_mark w"
  let ?w1 = "tk_delete a b w"
  let ?m1 = "after_delete a b ?m"
  have w1: "content ?w1 = take a ?t @ drop b ?t" "insert_mark ?w1 = ?m1"
    using assms by (auto simp: tk_delete_def Let_def min_def)
  have r: "replace_one re d w = (Inr (), tk_insert ?m1 (replace_var d) ?w1)"
    using assms(1) w1 by (simp add: replace_one_def Let_def)
  show "fst (replace_one re d w) = Inr ()" by (simp add: r)
  have m1: "?m1 \<le> length (content ?w1)"
    using assms by (auto simp: w1 after_delete_def)
  then have mn: "min ?m1 (length (content ?w1)) = ?m1" by simp
  have c: "content (tk_insert ?m1 (replace_var d) ?w1) =
             take ?m1 (content ?w1) @ replace_var d @ drop ?m1 (content ?w1)"
    by (cases "replace_var d = []") (simp_all add: tk_insert_def Let_def mn)
  have i: "insert_mark (tk_insert ?m1 (replace_var d) ?w1) = ?m1 + length (replace_var d)"
    by (cases "replace_var d = []") (simp_all add: tk_insert_def Let_def mn w1)
  show "insert_mark (snd (replace_one re d w)) =
       (if ?m < a then ?m else if ?m \<le> b then a else ?m - (b - a)) + length (replace_var d)"
  proof -
    have md: "?m1 = (if ?m < a then ?m else if ?m \<le> b then a else ?m - (b - a))"
      using assms by (auto simp: after_delete_def)
    have "insert_mark (snd (replace_one re d w)) = ?m1 + length (replace_var d)"
      by (simp only: r snd_conv i)
    then show ?thesis by (simp only: md)
  qed
  have cc: "content (snd (replace_one re d w)) =
              take ?m1 (take a ?t @ drop b ?t) @ replace_var d @ drop ?m1 (take a ?t @ drop b ?t)"
    by (simp only: r snd_conv c w1)
  consider "?m < a" | "a \<le> ?m" "?m \<le> b" | "b < ?m" by linarith
  then show "content (snd (replace_one re d w)) =
       (if ?m < a
        then take ?m ?t @ replace_var d @ drop ?m (take a ?t) @ drop b ?t
        else if ?m \<le> b
        then take a ?t @ replace_var d @ drop b ?t
        else take a ?t @ take (?m - b) (drop b ?t) @ replace_var d @ drop ?m ?t)"
  proof cases
    case 1
    then have "?m1 = ?m" by (simp add: after_delete_def)
    with 1 assms show ?thesis by (simp add: cc min_def)
  next
    case 2
    then have "?m1 = a" by (auto simp: after_delete_def)
    with 2 assms show ?thesis by (auto simp: cc min_def)
  next
    case 3
    let ?k = "?m - (b - a)"
    from 3 assms have e: "?m1 = ?k" by (simp add: after_delete_def)
    from assms have la: "length (take a ?t) = a" by simp
    from 3 assms have ka: "a \<le> ?k" "?k - a = ?m - b" by simp_all
    have t1: "take ?k (take a ?t @ drop b ?t) = take a ?t @ take (?m - b) (drop b ?t)"
      using ka la by simp
    from 3 have "drop (?m - b) (drop b ?t) = drop ?m ?t" by simp
    then have d1: "drop ?k (take a ?t @ drop b ?t) = drop ?m ?t"
      using ka la by simp
    from 3 assms have n: "\<not> ?m < a" "\<not> ?m \<le> b" by simp_all
    show ?thesis unfolding cc e t1 d1 using n by simp
  qed
qed

text \<open>
  C4, amended. Whenever a selection \<open>[a, b)\<close> is present, whatever the pattern and whether
  or not a search selected it, \<open>replace_one\<close> deletes the selected characters and inserts
  the replacement at the insert mark, which is left after the inserted text. With the
  mark inside the selection or at one of its ends the replacement takes the place of the
  selection; with the mark before \<open>a\<close> or after \<open>b\<close> the replacement goes in at the mark
  and the selected characters are only removed. With nothing selected \<open>replace_one\<close> is
  \<open>find_next\<close>, which does not change the text.
\<close>

theorem replace_one_replaces_selection_at_insert_mark:
  "(sel w = Some (a, b) \<longrightarrow> a < b \<longrightarrow> b \<le> length (content w) \<longrightarrow>
    insert_mark w \<le> length (content w) \<longrightarrow>
      fst (replace_one re d w) = Inr () \<and>
      content (snd (replace_one re d w)) =
        (if insert_mark w < a
         then take (insert_mark w) (content w) @ replace_var d @
              drop (insert_mark w) (take a (content w)) @ drop b (content w)
         else if insert_mark w \<le> b
         then take a (content w) @ replace_var d @ drop b (content w)
         else take a (content w) @ take (insert_mark w - b) (drop b (content w)) @
              replace_var d @ drop (insert_mark w) (content w)) \<and>
      insert_mark (snd (replace_one re d w)) =
        (if insert_mark w < a then insert_mark w
         else if insert_mark w \<le> b then a
         else insert_mark w - (b - a)) + length (replace_var d)) \<and>
   (sel w = None \<longrightarrow> replace_one re d w = find_next re d w) \<and>
   content (snd (find_next re d w)) = content w"
proof (intro conjI impI)
  show "content (snd (find_next re d w)) = content w" by (rule find_next_content)
  show "replace_one re d w = find_next re d w" if "sel w = None"
    using that by (simp add: replace_one_def)
next
  assume a: "sel w = Some (a, b)" "a < b" "b \<le> length (content w)"
    "insert_mark w \<le> length (content w)"
  show "fst (replace_one re d w) = Inr ()" by (rule replace_one_selected(1)[OF a])
  show "content (snd (replace_one re d w)) =
        (if insert_mark w < a
         then take (insert_mark w) (content w) @ replace_var d @
              drop (insert_mark w) (take a (content w)) @ drop b (content w)
         else if insert_mark w \<le> b
         then take a (content w) @ replace_var d @ drop b (content w)
         else take a (content w) @ take (insert_mark w - b) (drop b (content w)) @
              replace_var d @ drop (insert_mark w) (content w))"
    by (rule replace_one_selected(2)[OF a])
  show "insert_mark (snd (replace_one re d w)) =
        (if insert_mark w < a then insert_mark w
         else if insert_mark w \<le> b then a
         else insert_mark w - (b - a)) + length (replace_var d)"
    by (rule replace_one_selected(3)[OF a])
qed

theorem replace_one_replaces_selection_at_insert_mark_witness:
  "sel w_hello = Some (0, 5) \<and> (0::nat) < 5 \<and> 5 \<le> length (content w_hello) \<and>
   insert_mark w_hello \<le> length (content w_hello) \<and>
   fst (replace_one plain_re d_world w_hello) = Inr () \<and>
   content (snd (replace_one plain_re d_world w_hello)) = str ''X world'' \<and>
   insert_mark (snd (replace_one plain_re d_world w_hello)) = 1 \<and>
   sel (w_hello\<lparr>insert_mark := 11\<rparr>) = Some (0, 5) \<and>
   insert_mark (w_hello\<lparr>insert_mark := 11\<rparr>) \<le> length (content (w_hello\<lparr>insert_mark := 11\<rparr>)) \<and>
   content (snd (replace_one plain_re d_world (w_hello\<lparr>insert_mark := 11\<rparr>))) = str '' worldX'' \<and>
   insert_mark (snd (replace_one plain_re d_world (w_hello\<lparr>insert_mark := 11\<rparr>))) = 7 \<and>
   sel w_abcXabc = None \<and>
   replace_one plain_re d_abc w_abcXabc = find_next plain_re d_abc w_abcXabc"
proof -
  let ?v = "w_hello\<lparr>insert_mark := 11\<rparr>"
  have h1: "sel w_hello = Some (0, 5)" "sel ?v = Some (0, 5)" by (simp_all add: w_hello_def)
  have h2: "(0::nat) < 5" by simp
  have h3: "5 \<le> length (content w_hello)" "5 \<le> length (content ?v)"
    by (simp_all add: w_hello_def str_def)
  have h4: "insert_mark w_hello \<le> length (content w_hello)"
    "insert_mark ?v \<le> length (content ?v)"
    by (simp_all add: w_hello_def str_def)
  have h5: "sel w_abcXabc = None" by (simp add: w_abcXabc_def)
  note g = replace_one_replaces_selection_at_insert_mark[of w_hello 0 5 plain_re d_world, THEN conjunct1, THEN mp, OF h1(1), THEN mp, OF h2,
      THEN mp, OF h3(1), THEN mp, OF h4(1)]
  note k = replace_one_replaces_selection_at_insert_mark[of ?v 0 5 plain_re d_world, THEN conjunct1, THEN mp, OF h1(2), THEN mp, OF h2,
      THEN mp, OF h3(2), THEN mp, OF h4(2)]
  note n = replace_one_replaces_selection_at_insert_mark[of w_abcXabc 0 0 plain_re d_abc, THEN conjunct2, THEN conjunct1, THEN mp, OF h5]
  have a1: "fst (replace_one plain_re d_world w_hello) = Inr ()" by (rule g[THEN conjunct1])
  have a2: "content (snd (replace_one plain_re d_world w_hello)) = str ''X world''"
    using g[THEN conjunct2, THEN conjunct1] by (simp add: w_hello_def d_world_def str_def)
  have a3: "insert_mark (snd (replace_one plain_re d_world w_hello)) = 1"
    using g[THEN conjunct2, THEN conjunct2] by (simp add: w_hello_def d_world_def str_def)
  have b2: "content (snd (replace_one plain_re d_world ?v)) = str '' worldX''"
    using k[THEN conjunct2, THEN conjunct1] by (simp add: w_hello_def d_world_def str_def)
  have b3: "insert_mark (snd (replace_one plain_re d_world ?v)) = 7"
    using k[THEN conjunct2, THEN conjunct2] by (simp add: w_hello_def d_world_def str_def)
  from h1(1) h2 h3(1) h4(1) a1 a2 a3 h1(2) h4(2) b2 b3 h5 n show ?thesis by (intro conjI)
qed

section \<open>\<open>replace_all\<close>\<close>

lemma content_replace_all_text:
  "content (tk_insert 0 new (tk_delete 0 (length (content w)) w)) = new"
  by (cases "content w = []"; cases "new = []") (simp_all add: tk_insert_def tk_delete_def Let_def)

lemma replace_all_ok:
  "find_var d \<noteq> [] \<Longrightarrow> compile_needle re d = Inr p \<Longrightarrow>
   pattern_sub re p (replace_var d) (content w) = Inr new \<Longrightarrow>
     fst (replace_all re d w) = Inr () \<and> content (snd (replace_all re d w)) = new \<and>
     (new = content w \<longrightarrow> snd (replace_all re d w) = w)"
  by (simp add: replace_all_def Let_def content_replace_all_text)

lemma ci_num: "ascii_ci re \<Longrightarrow> c < 128 \<Longrightarrow> d < 128 \<Longrightarrow> ci_eq re c d = (ascii_lower c = ascii_lower d)"
  by (simp add: ascii_ci_def)

lemma sub_foo:
  "case_var d \<or> ascii_ci re \<Longrightarrow>
   pattern_sub re (Literal (str ''foo'') (\<not> case_var d)) (str ''bar'') (str ''foo foo foo'') = Inr (str ''bar bar bar'')"
  by (auto simp: pattern_sub_def template_def BACKSLASH_def str_def char_eq_def ci_num ascii_lower_def)

lemma sub_bar:
  "case_var d \<or> ascii_ci re \<Longrightarrow>
   pattern_sub re (Literal (str ''foo'') (\<not> case_var d)) (str ''bar'') (str ''bar bar bar'') = Inr (str ''bar bar bar'')"
  by (auto simp: pattern_sub_def template_def BACKSLASH_def str_def char_eq_def ci_num ascii_lower_def)

text \<open>
  C7. \<open>replace_all\<close> with an empty pattern changes nothing. Otherwise, when the pattern
  compiles and the substitution over the whole text gives \<open>new\<close>, the method returns
  normally, the widget's text becomes \<open>new\<close>, and when \<open>new\<close> is the text as it was the
  widget is not touched at all. On \<open>"foo foo foo"\<close> with the literal pattern \<open>"foo"\<close> and
  the replacement \<open>"bar"\<close> (matching case, or ignoring it with an engine that folds ASCII
  case) the text becomes \<open>"bar bar bar"\<close>, and a second \<open>replace_all\<close> leaves that widget
  as it is.
\<close>

theorem replace_all_whole_text_once:
  "(find_var d = [] \<longrightarrow> replace_all re d w = (Inr (), w)) \<and>
   (find_var d \<noteq> [] \<longrightarrow> compile_needle re d = Inr p \<longrightarrow>
      pattern_sub re p (replace_var d) (content w) = Inr new \<longrightarrow>
        fst (replace_all re d w) = Inr () \<and> content (snd (replace_all re d w)) = new \<and>
        (new = content w \<longrightarrow> snd (replace_all re d w) = w)) \<and>
   (cs \<or> ascii_ci re \<longrightarrow>
      content (snd (replace_all re (d_foo cs) w_foo)) = str ''bar bar bar'' \<and>
      replace_all re (d_foo cs) (snd (replace_all re (d_foo cs) w_foo)) =
        (Inr (), snd (replace_all re (d_foo cs) w_foo)))"
proof (intro conjI impI)
  show "replace_all re d w = (Inr (), w)" if "find_var d = []"
    using that by (simp add: replace_all_def)
next
  assume "find_var d \<noteq> []" "compile_needle re d = Inr p"
    "pattern_sub re p (replace_var d) (content w) = Inr new"
  from replace_all_ok[OF this]
  show "fst (replace_all re d w) = Inr ()" "content (snd (replace_all re d w)) = new"
    "new = content w \<Longrightarrow> snd (replace_all re d w) = w" by simp_all
next
  assume a: "cs \<or> ascii_ci re"
  let ?d = "d_foo cs"
  let ?w' = "snd (replace_all re ?d w_foo)"
  have ne: "find_var ?d \<noteq> []" by (simp add: d_foo_def str_def)
  have cn: "compile_needle re ?d = Inr (Literal (str ''foo'') (\<not> case_var ?d))"
    by (simp add: compile_needle_def d_foo_def)
  have rv: "replace_var ?d = str ''bar''" by (simp add: d_foo_def)
  have cw: "content w_foo = str ''foo foo foo''" by (simp add: w_foo_def)
  from a have a': "case_var ?d \<or> ascii_ci re" by (simp add: d_foo_def)
  have ps: "pattern_sub re (Literal (str ''foo'') (\<not> case_var ?d)) (replace_var ?d) (content w_foo)
              = Inr (str ''bar bar bar'')"
    unfolding rv cw by (rule sub_foo[OF a'])
  from replace_all_ok[OF ne cn ps]
  show c: "content ?w' = str ''bar bar bar''" by simp
  have ps2: "pattern_sub re (Literal (str ''foo'') (\<not> case_var ?d)) (replace_var ?d) (content ?w')
              = Inr (str ''bar bar bar'')"
    unfolding rv c by (rule sub_bar[OF a'])
  from replace_all_ok[OF ne cn ps2] c
  have "fst (replace_all re ?d ?w') = Inr ()" "snd (replace_all re ?d ?w') = ?w'" by simp_all
  then show "replace_all re ?d ?w' = (Inr (), ?w')"
    by (simp add: prod_eq_iff)
qed

theorem replace_all_whole_text_once_witness:
  "find_var ((d_foo False)\<lparr>find_var := []\<rparr>) = [] \<and>
   replace_all plain_re ((d_foo False)\<lparr>find_var := []\<rparr>) w_foo = (Inr (), w_foo) \<and>
   find_var (d_foo False) \<noteq> [] \<and>
   compile_needle plain_re (d_foo False) = Inr (Literal (str ''foo'') True) \<and>
   pattern_sub plain_re (Literal (str ''foo'') True) (replace_var (d_foo False)) (content w_foo) =
     Inr (str ''bar bar bar'') \<and>
   fst (replace_all plain_re (d_foo False) w_foo) = Inr () \<and>
   content (snd (replace_all plain_re (d_foo False) w_foo)) = str ''bar bar bar'' \<and>
   ascii_ci plain_re \<and>
   replace_all plain_re (d_foo False) (snd (replace_all plain_re (d_foo False) w_foo)) =
     (Inr (), snd (replace_all plain_re (d_foo False) w_foo))"
proof -
  have h0: "find_var ((d_foo False)\<lparr>find_var := []\<rparr>) = []" by simp
  have h1: "find_var (d_foo False) \<noteq> []" by (simp add: d_foo_def str_def)
  have h2: "compile_needle plain_re (d_foo False) = Inr (Literal (str ''foo'') True)"
    by (simp add: compile_needle_def d_foo_def)
  have h4: "ascii_ci plain_re" by (simp add: ascii_ci_def plain_re_def)
  have h3: "pattern_sub plain_re (Literal (str ''foo'') True) (replace_var (d_foo False)) (content w_foo) =
     Inr (str ''bar bar bar'')"
    using sub_foo[of "d_foo False" plain_re] h4 by (simp add: d_foo_def w_foo_def)
  note t = replace_all_whole_text_once[of "(d_foo False)\<lparr>find_var := []\<rparr>" plain_re w_foo]
  from t h0 have a: "replace_all plain_re ((d_foo False)\<lparr>find_var := []\<rparr>) w_foo = (Inr (), w_foo)"
    by blast
  from replace_all_whole_text_once[of "d_foo False" plain_re w_foo "Literal (str ''foo'') True" "str ''bar bar bar''" False] h1 h2 h3 h4
  have b: "fst (replace_all plain_re (d_foo False) w_foo) = Inr ()"
    "content (snd (replace_all plain_re (d_foo False) w_foo)) = str ''bar bar bar''"
    "replace_all plain_re (d_foo False) (snd (replace_all plain_re (d_foo False) w_foo)) =
       (Inr (), snd (replace_all plain_re (d_foo False) w_foo))"
    by blast+
  from h0 a h1 h2 h3 b h4 show ?thesis by (intro conjI)
qed

section \<open>The dirty flag\<close>

lemma save_file_cases:
  "save_file e st = (ok, st') \<Longrightarrow>
     (ok \<longrightarrow> dirty st' = False) \<and> (\<not> ok \<longrightarrow> dirty st' = dirty st) \<and> textw st' = textw st"
proof (cases "file_path st")
  case (Some p)
  assume "save_file e st = (ok, st')"
  with Some show ?thesis
    by (auto simp: status_def showerror_def split: if_splits)
next
  case None
  assume a: "save_file e st = (ok, st')"
  show ?thesis
  proof (cases "save_dialog e = []")
    case True
    with a None show ?thesis by (simp add: Let_def)
  next
    case False
    with a None show ?thesis
      by (auto simp: Let_def status_def showerror_def split: if_splits)
  qed
qed

text \<open>
  A change of the text sets the widget's modified flag, and the handler run for it sets
  the dirty flag and clears the widget's flag.
\<close>

lemma mutation_sets_dirty:
  "s \<noteq> [] \<Longrightarrow> dirty (deliver_modified (st\<lparr>textw := tk_insert i s (textw st)\<rparr>))"
  "a < b \<Longrightarrow> a < length (content (textw st)) \<Longrightarrow>
     dirty (deliver_modified (st\<lparr>textw := tk_delete a b (textw st)\<rparr>))"
  by (simp_all add: deliver_modified_def on_text_modified_def tk_insert_def tk_delete_def Let_def)

lemma modified_event_clears_flag:
  "\<not> modified (textw (deliver_modified st))"
  by (simp add: deliver_modified_def on_text_modified_def Let_def)

text \<open>
  Opening a file changes the text as well. \<open>main\<close> never clears the dirty flag after it
  has inserted the file named on the command line. \<open>open_file\<close> clears it, but leaves the
  widget's modified flag set, so the handler sets the dirty flag again when it runs after
  \<open>open_file\<close> has returned.
\<close>

lemma main_opens_dirty:
  assumes "is_file e p" and "read_file e (UserPath p) = Inr data" and "data \<noteq> []"
  shows "file_path (main e enabled secs (prog # p # rest)) = Some p"
    and "content (textw (main e enabled secs (prog # p # rest))) = data"
    and "\<not> dirty (main e enabled secs (prog # p # rest))"
    and "dirty (deliver_modified (main e enabled secs (prog # p # rest)))"
  using assms
  by (simp_all add: main_def new_editor_def schedule_highlight_def tk_insert_def
      deliver_modified_def on_text_modified_def Let_def)

lemma maybe_save_changes_textw:
  "maybe_save_changes e st = (ok, st1) \<Longrightarrow> textw st1 = textw st"
proof (cases "dirty st")
  case False
  assume "maybe_save_changes e st = (ok, st1)"
  with False show ?thesis by (simp add: maybe_save_changes_def)
next
  case True
  assume a: "maybe_save_changes e st = (ok, st1)"
  show ?thesis
  proof (cases "ask_save e")
    case None
    with a True show ?thesis by (simp add: maybe_save_changes_def)
  next
    case (Some resp)
    show ?thesis
    proof (cases resp)
      case False
      with a True Some show ?thesis by (simp add: maybe_save_changes_def)
    next
      case r: True
      with a True Some have "save_file e st = (ok, st1)" by (simp add: maybe_save_changes_def)
      from save_file_cases[OF this] show ?thesis by simp
    qed
  qed
qed

lemma maybe_save_changes_dirty:
  "maybe_save_changes e st = (True, st1) \<Longrightarrow> ask_save e \<noteq> Some False \<Longrightarrow> \<not> dirty st1"
proof (cases "dirty st")
  case False
  assume "maybe_save_changes e st = (True, st1)"
  with False show ?thesis by (auto simp add: maybe_save_changes_def)
next
  case True
  assume a: "maybe_save_changes e st = (True, st1)" and b: "ask_save e \<noteq> Some False"
  show ?thesis
  proof (cases "ask_save e")
    case None
    with a True show ?thesis by (simp add: maybe_save_changes_def)
  next
    case (Some resp)
    with b have r: "resp" by simp
    with a True Some have "save_file e st = (True, st1)" by (simp add: maybe_save_changes_def)
    from save_file_cases[OF this] show ?thesis by simp
  qed
qed

lemma open_file_then_dirty:
  assumes m: "maybe_save_changes e st = (True, st1)" and d: "open_dialog e \<noteq> []"
    and r: "read_file e (UserPath (open_dialog e)) = Inr data" and n: "data \<noteq> []"
  shows "file_path (open_file e st) = Some (open_dialog e)"
    and "content (textw (open_file e st)) = data"
    and "\<not> dirty (open_file e st)"
    and "dirty (deliver_modified (open_file e st))"
proof -
  let ?w = "tk_insert 0 data (tk_delete 0 (length (content (textw st1))) (textw st1))"
  have o: "open_file e st =
    status (Opened (UserPath (open_dialog e)))
      (schedule_highlight (st1\<lparr>textw := ?w, file_path := Some (open_dialog e), dirty := False\<rparr>))"
    using m d r by (simp add: open_file_def Let_def)
  have c: "content ?w = data" using n by (simp add: tk_insert_def tk_delete_def Let_def)
  have f: "modified ?w" using n by (simp add: tk_insert_def Let_def)
  show "file_path (open_file e st) = Some (open_dialog e)"
    by (simp add: o status_def schedule_highlight_def)
  show "content (textw (open_file e st)) = data"
    by (simp add: o status_def schedule_highlight_def c)
  show "\<not> dirty (open_file e st)"
    by (simp add: o status_def schedule_highlight_def)
  show "dirty (deliver_modified (open_file e st))"
    by (simp add: o status_def schedule_highlight_def deliver_modified_def on_text_modified_def f)
qed

text \<open>
  C8. The claim: after a successful open the dirty flag is false. The code does not keep
  it so. Started with the file \<open>notes.txt\<close>, which holds \<open>"hi"\<close>, on the command line,
  \<open>main\<close> inserts the file and binds the path; the insertion sets the widget's modified
  flag, the handler bound to the \<open>Modified\<close> event sets the dirty flag, and nothing
  clears it: the document just opened is dirty. \<open>open_file\<close> on an empty clean document,
  with \<open>a.txt\<close> chosen in the dialog, returns with the dirty flag false and the widget's
  modified flag set; the handler run for that flag sets the dirty flag.
\<close>

theorem opened_document_becomes_dirty:
  "is_file env_ok (str ''notes.txt'') \<and>
   read_file env_ok (UserPath (str ''notes.txt'')) = Inr (str ''hi'') \<and>
   file_path (main env_ok True 10 [str ''texiteditor.py'', str ''notes.txt'']) =
     Some (str ''notes.txt'') \<and>
   content (textw (main env_ok True 10 [str ''texiteditor.py'', str ''notes.txt''])) = str ''hi'' \<and>
   modified (textw (main env_ok True 10 [str ''texiteditor.py'', str ''notes.txt''])) \<and>
   dirty (deliver_modified (main env_ok True 10 [str ''texiteditor.py'', str ''notes.txt''])) \<and>
   open_dialog env_ok = str ''a.txt'' \<and>
   read_file env_ok (UserPath (str ''a.txt'')) = Inr (str ''hi'') \<and>
   file_path (open_file env_ok ed_untitled_clean) = Some (str ''a.txt'') \<and>
   content (textw (open_file env_ok ed_untitled_clean)) = str ''hi'' \<and>
   \<not> dirty (open_file env_ok ed_untitled_clean) \<and>
   modified (textw (open_file env_ok ed_untitled_clean)) \<and>
   dirty (deliver_modified (open_file env_ok ed_untitled_clean))"
proof -
  let ?argv = "[str ''texiteditor.py'', str ''notes.txt'']"
  let ?w = "\<lparr>content = str ''hi'', insert_mark = 2, sel = None, modified = True\<rparr>"
  have e1: "is_file env_ok (str ''notes.txt'')" by (simp add: env_ok_def)
  have e2: "read_file env_ok (UserPath (str ''notes.txt'')) = Inr (str ''hi'')"
    by (simp add: env_ok_def)
  have e3: "open_dialog env_ok = str ''a.txt''" by (simp add: env_ok_def)
  have e4: "read_file env_ok (UserPath (str ''a.txt'')) = Inr (str ''hi'')"
    by (simp add: env_ok_def)
  have ins: "tk_insert 0 (str ''hi'') \<lparr>content = [], insert_mark = 0, sel = None, modified = False\<rparr> = ?w"
    by (simp add: tk_insert_def str_def)
  have m: "main env_ok True 10 ?argv =
    (new_editor True 10)\<lparr>textw := ?w, file_path := Some (str ''notes.txt''),
       highlight_after_id := Some 250\<rparr>"
    by (simp add: main_def e1 e2 schedule_highlight_def Let_def)
       (simp add: new_editor_def ins)
  have s: "maybe_save_changes env_ok ed_untitled_clean = (True, ed_untitled_clean)"
    by (simp add: maybe_save_changes_def ed_untitled_clean_def)
  have n: "str ''a.txt'' \<noteq> []" by (simp add: str_def)
  have o: "open_file env_ok ed_untitled_clean =
    ed_untitled_clean\<lparr>textw := ?w, file_path := Some (str ''a.txt''), dirty := False,
       highlight_after_id := Some 250, effects := [Status (Opened (UserPath (str ''a.txt'')))]\<rparr>"
    by (simp add: open_file_def s e3 e4 n Let_def status_def schedule_highlight_def)
       (simp add: ed_untitled_clean_def tk_delete_def ins)
  have m1: "file_path (main env_ok True 10 ?argv) = Some (str ''notes.txt'')" by (simp add: m)
  have m2: "content (textw (main env_ok True 10 ?argv)) = str ''hi''" by (simp add: m)
  have m3: "modified (textw (main env_ok True 10 ?argv))" by (simp add: m)
  have m4: "dirty (deliver_modified (main env_ok True 10 ?argv))"
    by (simp add: m deliver_modified_def on_text_modified_def new_editor_def)
  have o1: "file_path (open_file env_ok ed_untitled_clean) = Some (str ''a.txt'')" by (simp add: o)
  have o2: "content (textw (open_file env_ok ed_untitled_clean)) = str ''hi''" by (simp add: o)
  have o3: "\<not> dirty (open_file env_ok ed_untitled_clean)" by (simp add: o)
  have o4: "modified (textw (open_file env_ok ed_untitled_clean))" by (simp add: o)
  have o5: "dirty (deliver_modified (open_file env_ok ed_untitled_clean))"
    by (simp add: o deliver_modified_def on_text_modified_def)
  from e1 e2 m1 m2 m3 m4 e3 e4 o1 o2 o3 o4 o5 show ?thesis by (intro conjI)
qed

section \<open>Autosave\<close>

text \<open>
  What does hold of a tick while autosave is enabled: the timer is scheduled again, a
  failure to write the snapshot is swallowed without a trace, and a clean document with a
  bound path is not written.
\<close>

lemma autosave_reschedules:
  "autosave_enabled st \<Longrightarrow>
     autosave_after_id (autosave_tick e st) = Some (autosave_secs st * 1000)"
proof -
  have sf: "autosave_secs (snd (save_file e s)) = autosave_secs s" for s
    by (cases "file_path s") (simp_all add: status_def showerror_def Let_def)
  assume "autosave_enabled st"
  then show ?thesis
    by (simp add: autosave_tick_def schedule_autosave_def status_def showerror_def Let_def sf
        split: option.splits)
qed

lemma autosave_snapshot_failure_swallowed:
  "autosave_enabled st \<Longrightarrow> file_path st = None \<Longrightarrow>
   \<not> (mkdir_ok e \<and> write_ok e (SnapshotPath (now e))) \<Longrightarrow>
     effects (autosave_tick e st) = effects st"
  by (auto simp: autosave_tick_def schedule_autosave_def Let_def)

lemma autosave_bound_clean_writes_nothing:
  "autosave_enabled st \<Longrightarrow> file_path st = Some p \<Longrightarrow> \<not> dirty st \<Longrightarrow>
     effects (autosave_tick e st) = effects st @ [Status AutoSaved]"
  by (simp add: autosave_tick_def schedule_autosave_def status_def Let_def)

text \<open>
  C5. The claim: no outcome of the save attempt of an autosave tick surfaces a blocking
  dialog. The code does not do so when the path is bound and the write fails: the tick
  calls \<open>save_file\<close>, whose own handler shows the modal error box
  \<open>messagebox.showerror\<close> and returns \<open>False\<close>; nothing is left for the tick's
  \<open>except\<close> to swallow, and the tick goes on to report "Auto-saved". The timer is
  scheduled again.
\<close>

theorem autosave_failure_shows_error_dialog:
  "autosave_enabled ed_named_dirty \<and> dirty ed_named_dirty \<and>
   file_path ed_named_dirty = Some (str ''notes.txt'') \<and>
   \<not> write_ok env_disk_full (UserPath (str ''notes.txt'')) \<and>
   effects (autosave_tick env_disk_full ed_named_dirty) =
     [ShowError ''Failed to save file'', Status AutoSaved] \<and>
   autosave_after_id (autosave_tick env_disk_full ed_named_dirty) = Some 10000"
  by (simp add: ed_named_dirty_def env_disk_full_def editor_eval)

text \<open>
  C6. The claim: a tick writes nothing when the document is not dirty. The code does not
  do so when no path is bound: the dirty flag is tested only in the branch for a bound
  path, and an untitled document, here clean and empty, is written to a new snapshot
  file on every tick.
\<close>

theorem autosave_snapshots_clean_untitled_document:
  "autosave_enabled ed_untitled_clean \<and> \<not> dirty ed_untitled_clean \<and>
   file_path ed_untitled_clean = None \<and>
   effects (autosave_tick env_ok ed_untitled_clean) =
     [Write (SnapshotPath 1700000000) [], Status AutoSaved]"
  by (simp add: ed_untitled_clean_def env_ok_def editor_eval)

section \<open>Highlighting\<close>

lemma strip_empty_iff: "strip s = [] \<longleftrightarrow> (\<forall>c\<in>set s. is_space c)"
proof -
  have "strip s = [] \<longleftrightarrow> (\<forall>c\<in>set (dropWhile is_space s). is_space c)"
    by (simp add: strip_def dropWhile_eq_Nil_conv)
  also have "\<dots> \<longleftrightarrow> dropWhile is_space s = []"
  proof
    assume a: "\<forall>c\<in>set (dropWhile is_space s). is_space c"
    show "dropWhile is_space s = []"
    proof (rule ccontr)
      assume "dropWhile is_space s \<noteq> []"
      then have "\<not> is_space (hd (dropWhile is_space s))" "hd (dropWhile is_space s) \<in> set (dropWhile is_space s)"
        by (simp_all add: hd_dropWhile)
      with a show False by blast
    qed
  next
    assume "dropWhile is_space s = []"
    then show "\<forall>c\<in>set (dropWhile is_space s). is_space c"
      by (auto dest: set_dropWhileD)
  qed
  also have "\<dots> \<longleftrightarrow> (\<forall>c\<in>set s. is_space c)"
    by (simp add: dropWhile_eq_Nil_conv)
  finally show ?thesis .
qed

text \<open>
  C10. When the text is empty or holds only whitespace (the characters \<open>str.strip\<close>
  removes), a highlight pass clears the pending timer and the old tags and adds no span;
  the result does not depend on the lexer, which is not consulted. Without Pygments the
  pass only clears the timer.
\<close>

theorem blank_text_not_highlighted:
  "\<forall>c\<in>set (content (textw st)). is_space c \<Longrightarrow>
     highlight_now (Some py) st = st\<lparr>highlight_after_id := None, syntax_tags := []\<rparr> \<and>
     highlight_now None st = st\<lparr>highlight_after_id := None\<rparr>"
  by (simp add: highlight_now_def strip_empty_iff Let_def)

theorem blank_text_not_highlighted_witness:
  "list_all is_space (content (textw ed_blank)) \<and>
   highlight_now (Some sample_pygments) ed_blank = ed_blank\<lparr>highlight_after_id := None, syntax_tags := []\<rparr> \<and>
   highlight_now (None :: unit pygments option) ed_blank = ed_blank\<lparr>highlight_after_id := None\<rparr>"
proof -
  have h: "\<forall>c\<in>set (content (textw ed_blank)). is_space c"
    by (simp add: ed_blank_def is_space_def)
  from blank_text_not_highlighted[OF h, of sample_pygments] h show ?thesis
    by (simp only: list_all_iff)
qed

text \<open>
  C9. The claim: a highlight pass never emits a span of empty length. The code does. On
  the text \<open>"abcde\n"\<close>, with a lexer that yields the keyword \<open>"abcde"\<close>, an empty token and
  the text token \<open>"\n"\<close>, the pass drops the empty token and calls \<open>tag_add\<close> twice: for
  the keyword with the indices \<open>1.0\<close> and \<open>1.5\<close>, and for the token \<open>"\n"\<close>, one character
  long, with the indices \<open>1.5\<close> and \<open>1.5\<close>, a range that holds no character.
\<close>

theorem highlight_emits_empty_range_at_final_newline:
  "lex sample_pygments (content (textw ed_abcde_nl)) () =
     [([''Keyword''], str ''abcde''), ([''Text''], []), ([''Text''], [LF])] \<and>
   syntax_tags (highlight_now (Some sample_pygments) ed_abcde_nl) =
     [\<lparr>tag = ''tok-kw'', start_index = (1, 0), end_index = (1, 5)\<rparr>,
      \<lparr>tag = ''tok-text'', start_index = (1, 5), end_index = (1, 5)\<rparr>] \<and>
   tagged (content (textw ed_abcde_nl))
     \<lparr>tag = ''tok-text'', start_index = (1, 5), end_index = (1, 5)\<rparr> = {}"
  by (simp add: highlight_now_def get_lexer_def sample_pygments_def ed_abcde_nl_def strip_def
      is_space_def str_def tag_for_def tok_in_def app_int_to_index_def splitlines_def
      is_linebreak_def CR_def LF_def tagged_def)

text \<open>
  An index \<open>_int_to_index\<close> computes for an offset before the end of the text resolves
  to that offset in the widget; all offsets from the end of the text on get the same
  index.
\<close>

lemma tk_seek_index_loop:
  assumes "LF \<notin> set u" "col = length u" "pos \<le> length t"
  shows "tk_seek (fst (index_loop t pos line col) - line) (u @ t) (snd (index_loop t pos line col))
           = length u + pos"
  using assms
proof (induction t arbitrary: u col pos line)
  case Nil
  then have "\<forall>x\<in>set u. x \<noteq> LF" by auto
  then have "takeWhile (\<lambda>c. c \<noteq> LF) u = u" by (rule takeWhile_eq_all_conv[THEN iffD2])
  then have "length (takeWhile (\<lambda>c. c \<noteq> LF) u) = length u" by (simp only:)
  with Nil show ?case by simp
next
  case (Cons c rest)
  have tw: "takeWhile (\<lambda>c. c \<noteq> LF) (u @ xs) = u @ takeWhile (\<lambda>c. c \<noteq> LF) xs" for xs
    by (rule takeWhile_append2) (use Cons.prems(1) in auto)
  have dw: "dropWhile (\<lambda>c. c \<noteq> LF) (u @ xs) = dropWhile (\<lambda>c. c \<noteq> LF) xs" for xs
    by (rule dropWhile_append2) (use Cons.prems(1) in auto)
  show ?case
  proof (cases "pos = 0")
    case True
    with Cons.prems show ?thesis by (simp add: tw)
  next
    case False
    with Cons.prems have p: "pos - 1 \<le> length rest" by simp
    show ?thesis
    proof (cases "c = LF")
      case True
      let ?r = "index_loop rest (pos - 1) (line + 1) 0"
      have ih: "tk_seek (fst ?r - (line + 1)) ([] @ rest) (snd ?r) = length ([]::pystr) + (pos - 1)"
        by (rule Cons.IH) (use p in simp_all)
      have ge: "line + 1 \<le> fst ?r" by (rule index_loop_line)
      then have t: "fst ?r - line = Suc (fst ?r - (line + 1))" by simp
      have il: "index_loop (c # rest) pos line col = ?r" using False True by simp
      have "tk_seek (fst ?r - line) (u @ c # rest) (snd ?r) = length u + pos"
        unfolding t using ih False True by (simp add: tw dw)
      then show ?thesis unfolding il .
    next
      case nl: False
      let ?r = "index_loop rest (pos - 1) line (col + 1)"
      have ih: "tk_seek (fst ?r - line) ((u @ [c]) @ rest) (snd ?r) = length (u @ [c]) + (pos - 1)"
        by (rule Cons.IH) (use Cons.prems nl p in simp_all)
      have il: "index_loop (c # rest) pos line col = ?r" using False nl by simp
      from ih False show ?thesis unfolding il by simp
    qed
  qed
qed

lemma tk_offset_app_index:
  assumes "p < length t"
  shows "tk_offset t (app_int_to_index p t) = p"
proof (cases "p = 0")
  case True
  then show ?thesis by (simp add: app_int_to_index_def tk_offset_def)
next
  case False
  with assms have a: "app_int_to_index p t = index_loop t p 1 0"
    by (simp add: app_int_to_index_def)
  from tk_seek_index_loop[of "[]" 0 p t 1] assms show ?thesis
    by (simp add: a tk_offset_def)
qed

lemma app_index_past_end:
  assumes "length t \<le> p" "length t \<le> q"
  shows "app_int_to_index p t = app_int_to_index q t"
proof (cases "t = []")
  case True
  then show ?thesis by (simp add: app_int_to_index_def splitlines_def)
next
  case False
  then have "0 < length t" by simp
  with assms have "0 < p" and "0 < q" by linarith+
  with assms show ?thesis by (simp add: app_int_to_index_def)
qed

lemma highlight_loop_indices:
  "map (\<lambda>s. (start_index s, end_index s)) (highlight_loop t pos toks) =
   map (\<lambda>(a, b). (app_int_to_index a t, app_int_to_index b t)) (loop_offsets pos toks)"
  by (induction t pos toks rule: highlight_loop.induct) (simp_all add: Let_def)

lemma highlight_loop_tags:
  "map tag (highlight_loop t pos toks) =
   map (\<lambda>tok. tag_for (fst tok)) (filter (\<lambda>tok. snd tok \<noteq> []) toks)"
  by (induction t pos toks rule: highlight_loop.induct) (simp_all add: Let_def)

lemma loop_offsets_bounds:
  "(a, b) \<in> set (loop_offsets pos toks) \<Longrightarrow> pos \<le> a \<and> a < b"
proof (induction pos toks rule: loop_offsets.induct)
  case (1 pos)
  then show ?case by simp
next
  case (2 pos toktype val rest)
  then show ?case by (cases "length val = 0") (auto split: if_splits)
qed

lemma loop_offsets_sorted:
  "sorted_wrt (\<lambda>x y. snd x \<le> fst y) (loop_offsets pos toks)"
proof (induction pos toks rule: loop_offsets.induct)
  case (1 pos)
  then show ?case by simp
next
  case (2 pos toktype val rest)
  show ?case
  proof (cases "length val = 0")
    case True
    with 2 show ?thesis by simp
  next
    case False
    have "\<forall>y\<in>set (loop_offsets (pos + length val) rest). pos + length val \<le> fst y"
      using loop_offsets_bounds by fastforce
    with False 2 show ?thesis by simp
  qed
qed

lemma loop_offsets_head:
  "loop_offsets pos toks \<noteq> [] \<Longrightarrow> fst (hd (loop_offsets pos toks)) = pos"
  by (induction pos toks rule: loop_offsets.induct) (auto split: if_splits)

lemma loop_offsets_chain:
  "Suc i < length (loop_offsets pos toks) \<Longrightarrow>
     snd (loop_offsets pos toks ! i) = fst (loop_offsets pos toks ! Suc i)"
proof (induction pos toks arbitrary: i rule: loop_offsets.induct)
  case (1 pos)
  then show ?case by simp
next
  case (2 pos toktype val rest)
  show ?case
  proof (cases "length val = 0")
    case True
    with 2 show ?thesis by simp
  next
    case False
    let ?lo = "loop_offsets (pos + length val) rest"
    from False have e: "loop_offsets pos ((toktype, val) # rest) = (pos, pos + length val) # ?lo"
      by simp
    show ?thesis
    proof (cases i)
      case 0
      with "2.prems" e have ne: "?lo \<noteq> []" by auto
      from loop_offsets_head[OF ne] ne have "fst (?lo ! 0) = pos + length val"
        by (simp add: hd_conv_nth)
      with 0 show ?thesis unfolding e by simp
    next
      case (Suc k)
      with "2.prems" e have "Suc k < length ?lo" by simp
      from "2.IH"(2)[OF False this] Suc show ?thesis unfolding e by simp
    qed
  qed
qed


lemma highlight_loop_nth:
  assumes "i < length (highlight_loop t pos toks)"
  shows "i < length (loop_offsets pos toks) \<and>
         start_index (highlight_loop t pos toks ! i) = app_int_to_index (fst (loop_offsets pos toks ! i)) t \<and>
         end_index (highlight_loop t pos toks ! i) = app_int_to_index (snd (loop_offsets pos toks ! i)) t"
proof -
  let ?hl = "highlight_loop t pos toks" and ?lo = "loop_offsets pos toks"
  let ?f = "\<lambda>s. (start_index s, end_index s)"
  let ?g = "\<lambda>(a, b). (app_int_to_index a t, app_int_to_index b t)"
  have m: "map ?f ?hl = map ?g ?lo" by (rule highlight_loop_indices)
  then have "length (map ?f ?hl) = length (map ?g ?lo)" by (simp only:)
  then have l: "length ?hl = length ?lo" by simp
  with assms have i: "i < length ?lo" by simp
  from m have "map ?f ?hl ! i = map ?g ?lo ! i" by (simp only:)
  with assms i have "?f (?hl ! i) = ?g (?lo ! i)" by simp
  with i show ?thesis by (simp add: case_prod_beta)
qed

text \<open>
  What holds of the ranges a pass emits, for every text and every token list: the
  characters tagged by an earlier \<open>tag_add\<close> all come before those tagged by a later one,
  each range ends at the index where the next begins, and there is one \<open>tag_add\<close> for
  each token that is not empty and none for an empty one.
\<close>

lemma highlight_ranges_ordered_disjoint:
  "(\<forall>i j. i < j \<and> j < length (highlight_loop t pos toks) \<longrightarrow>
      (\<forall>x\<in>tagged t (highlight_loop t pos toks ! i).
         \<forall>y\<in>tagged t (highlight_loop t pos toks ! j). x < y)) \<and>
   (\<forall>i. Suc i < length (highlight_loop t pos toks) \<longrightarrow>
      end_index (highlight_loop t pos toks ! i) = start_index (highlight_loop t pos toks ! Suc i)) \<and>
   map tag (highlight_loop t pos toks) =
     map (\<lambda>tok. tag_for (fst tok)) (filter (\<lambda>tok. snd tok \<noteq> []) toks) \<and>
   (\<exists>tokens. syntax_tags (highlight_now (Some py) st) =
      highlight_loop (content (textw st)) 0 tokens)"
proof (intro conjI allI impI ballI)
  show "map tag (highlight_loop t pos toks) =
     map (\<lambda>tok. tag_for (fst tok)) (filter (\<lambda>tok. snd tok \<noteq> []) toks)"
    by (rule highlight_loop_tags)
next
  show "\<exists>tokens. syntax_tags (highlight_now (Some py) st) =
      highlight_loop (content (textw st)) 0 tokens"
  proof (cases "strip (content (textw st)) = []")
    case True
    then have "syntax_tags (highlight_now (Some py) st) = highlight_loop (content (textw st)) 0 []"
      by (simp add: highlight_now_def Let_def)
    then show ?thesis by blast
  next
    case False
    then have "syntax_tags (highlight_now (Some py) st) =
      highlight_loop (content (textw st)) 0
        (lex py (content (textw st))
           (the (get_lexer (Some py) (st\<lparr>highlight_after_id := None, syntax_tags := []\<rparr>))))"
      by (simp add: highlight_now_def get_lexer_def Let_def split: option.splits)
    then show ?thesis by blast
  qed
next
  fix i
  let ?hl = "highlight_loop t pos toks" and ?lo = "loop_offsets pos toks"
  assume a: "Suc i < length ?hl"
  then have b: "i < length ?hl" by simp
  from highlight_loop_nth[OF a] highlight_loop_nth[OF b] loop_offsets_chain[of i pos toks]
  show "end_index (?hl ! i) = start_index (?hl ! Suc i)" by simp
next
  fix i j x y
  let ?hl = "highlight_loop t pos toks" and ?lo = "loop_offsets pos toks"
  assume ij: "i < j \<and> j < length ?hl"
    and x: "x \<in> tagged t (?hl ! i)" and y: "y \<in> tagged t (?hl ! j)"
  from ij have i: "i < length ?hl" and j: "j < length ?hl" by simp_all
  note ni = highlight_loop_nth[OF i] and nj = highlight_loop_nth[OF j]
  obtain ai bi where pi: "?lo ! i = (ai, bi)" by (cases "?lo ! i")
  obtain aj bj where pj: "?lo ! j = (aj, bj)" by (cases "?lo ! j")
  from ni nj have li: "i < length ?lo" and lj: "j < length ?lo" by simp_all
  from sorted_wrt_nth_less[OF loop_offsets_sorted, of i j pos toks] ij lj pi pj
  have le: "bi \<le> aj" by simp
  from lj pj have "(aj, bj) \<in> set ?lo" by (metis nth_mem)
  from loop_offsets_bounds[OF this] have lt: "aj < bj" by simp
  from x ni pi have x': "x < tk_offset t (app_int_to_index bi t)" by (simp add: tagged_def)
  from y nj pj have y': "tk_offset t (app_int_to_index aj t) \<le> y"
    "y < tk_offset t (app_int_to_index bj t)" by (simp_all add: tagged_def)
  show "x < y"
  proof (cases "aj < length t")
    case True
    with le have "bi < length t" by simp
    from tk_offset_app_index[OF this] tk_offset_app_index[OF True] x' y'(1) le
    show ?thesis by simp
  next
    case False
    with lt have "length t \<le> aj" "length t \<le> bj" by simp_all
    from app_index_past_end[OF this] y' show ?thesis by simp
  qed
qed

text \<open>The text \<open>"draft text"\<close>: a keyword on \<open>[0, 5)\<close>, text on \<open>[5, 10)\<close>.\<close>

lemma highlight_ranges_draft_text:
  "length (highlight_loop (str ''draft text'') 0
      [([''Keyword''], str ''draft''), ([''Text''], []), ([''Text''], str '' text'')]) = 2 \<and>
   syntax_tags (highlight_now (Some sample_pygments) ed_named_dirty) =
     highlight_loop (str ''draft text'') 0
      [([''Keyword''], str ''draft''), ([''Text''], []), ([''Text''], str '' text'')] \<and>
   tagged (str ''draft text'') (highlight_loop (str ''draft text'') 0
      [([''Keyword''], str ''draft''), ([''Text''], []), ([''Text''], str '' text'')] ! 0) = {0..<5} \<and>
   tagged (str ''draft text'') (highlight_loop (str ''draft text'') 0
      [([''Keyword''], str ''draft''), ([''Text''], []), ([''Text''], str '' text'')] ! 1) = {5..<10} \<and>
   (4::nat) < 5 \<and>
   end_index (highlight_loop (str ''draft text'') 0
      [([''Keyword''], str ''draft''), ([''Text''], []), ([''Text''], str '' text'')] ! 0) =
   start_index (highlight_loop (str ''draft text'') 0
      [([''Keyword''], str ''draft''), ([''Text''], []), ([''Text''], str '' text'')] ! Suc 0) \<and>
   map tag (highlight_loop (str ''draft text'') 0
      [([''Keyword''], str ''draft''), ([''Text''], []), ([''Text''], str '' text'')]) =
     [''tok-kw'', ''tok-text'']"
proof -
  let ?t = "str ''draft text''"
  let ?toks = "[([''Keyword''], str ''draft''), ([''Text''], []), ([''Text''], str '' text'')]"
  let ?hl = "highlight_loop ?t 0 ?toks"
  have hl: "?hl = [\<lparr>tag = ''tok-kw'', start_index = (1, 0), end_index = (1, 5)\<rparr>,
      \<lparr>tag = ''tok-text'', start_index = (1, 5), end_index = (1, 10)\<rparr>]"
    by (simp add: str_def tag_for_def tok_in_def app_int_to_index_def splitlines_def
        is_linebreak_def CR_def LF_def)
  have len: "length ?hl = 2" by (simp only: hl) simp
  have st: "syntax_tags (highlight_now (Some sample_pygments) ed_named_dirty) = ?hl"
    by (simp add: highlight_now_def get_lexer_def sample_pygments_def ed_named_dirty_def strip_def
      is_space_def str_def tag_for_def tok_in_def app_int_to_index_def splitlines_def
      is_linebreak_def CR_def LF_def)
  have t0: "tagged ?t (?hl ! 0) = {0..<5}"
    by (simp only: hl) (simp add: tagged_def tk_offset_def str_def is_linebreak_def LF_def CR_def eval_nat_numeral)
  have t1: "tagged ?t (?hl ! 1) = {5..<10}"
    by (simp only: hl) (simp add: tagged_def tk_offset_def str_def is_linebreak_def LF_def CR_def eval_nat_numeral)
  have ij: "(0::nat) < 1 \<and> 1 < length ?hl" by (simp only: len) simp
  have x: "(4::nat) \<in> tagged ?t (?hl ! 0)" by (simp only: t0) simp
  have y: "(5::nat) \<in> tagged ?t (?hl ! 1)" by (simp only: t1) simp
  note g = highlight_ranges_ordered_disjoint[of ?t 0 ?toks sample_pygments ed_named_dirty]
  have a: "(4::nat) < 5"
    by (rule g[THEN conjunct1, THEN spec, THEN spec, THEN mp, OF ij, THEN bspec, OF x,
          THEN bspec, OF y])
  have s: "Suc 0 < length ?hl" using len by simp
  have b: "end_index (?hl ! 0) = start_index (?hl ! Suc 0)"
    by (rule g[THEN conjunct2, THEN conjunct1, THEN spec, THEN mp, OF s])
  have c: "map tag ?hl = map (\<lambda>tok. tag_for (fst tok)) (filter (\<lambda>tok. snd tok \<noteq> []) ?toks)"
    by (rule g[THEN conjunct2, THEN conjunct2, THEN conjunct1])
  have c': "map (\<lambda>tok. tag_for (fst tok)) (filter (\<lambda>tok. snd tok \<noteq> []) ?toks) =
    [''tok-kw'', ''tok-text'']"
    by (simp add: str_def tag_for_def tok_in_def)
  from len st t0 t1 a b c[unfolded c'] show ?thesis by (intro conjI)
qed

end
